theory Spec2Isabelle
  imports Main "HOL-Library.Word" "HOL-Library.Product_Lexorder" "HOL-Library.List_Lexorder"
    "HOL-Library.Multiset"
begin

unbundle bit_operations_syntax

section \<open>Data model of services/outside\_network.c\<close>

text \<open>
  The outbound query dispatcher keeps one \<open>struct pending\<close> per UDP query in flight. The
  red-black tree \<open>outnet->pending\<close> is keyed by the pending structs themselves
  (\<open>pend->node.key = pend\<close>) and ordered by \<open>pending_cmp\<close>.

  A \<open>struct sockaddr_storage\<close> is a block of 128 bytes; \<open>pending_cmp\<close> reads it through
  casts to \<open>struct sockaddr_in\<close> and \<open>struct sockaddr_in6\<close>. The accessors below are those
  of the Linux layout on a little-endian host: the family is a 16-bit value at offset 0, the
  port the 16-bit value at offset 2 (read as the host reads it, without \<open>ntohs\<close>), the IPv4
  address the 4 bytes at offset 4 and the IPv6 address the 16 bytes at offset 8.
\<close>

type_synonym byte = "8 word"

text \<open>A \<open>struct comm_point*\<close> is compared by pointer only; it is modelled by its address.\<close>

type_synonym comm_point = nat

definition SOCKADDR_STORAGE_SIZE :: nat where
  "SOCKADDR_STORAGE_SIZE = 128"

definition AF_INET :: "16 word" where
  "AF_INET = 2"

definition AF_INET6 :: "16 word" where
  "AF_INET6 = 10"

definition INET_SIZE :: nat where
  "INET_SIZE = 4"

definition INET6_SIZE :: nat where
  "INET6_SIZE = 16"

definition MAX_ID_RETRY :: nat where
  "MAX_ID_RETRY = 1000"

definition NETEVENT_NOERROR :: int where
  "NETEVENT_NOERROR = 0"

definition NETEVENT_CLOSED :: int where
  "NETEVENT_CLOSED = -1"

definition NETEVENT_TIMEOUT :: int where
  "NETEVENT_TIMEOUT = -2"

text \<open>The 16-bit value the host reads from two consecutive bytes (little endian).\<close>

definition host_u16 :: "byte list \<Rightarrow> nat \<Rightarrow> 16 word" where
  "host_u16 a off = word_cat (a ! (off + 1)) (a ! off)"

definition sin_family :: "byte list \<Rightarrow> 16 word" where
  "sin_family a = host_u16 a 0"

definition sin_port :: "byte list \<Rightarrow> 16 word" where
  "sin_port a = host_u16 a 2"

definition sin_addr :: "byte list \<Rightarrow> byte list" where
  "sin_addr a = drop 4 a"

definition sin6_family :: "byte list \<Rightarrow> 16 word" where
  "sin6_family a = host_u16 a 0"

definition sin6_port :: "byte list \<Rightarrow> 16 word" where
  "sin6_port a = host_u16 a 2"

definition sin6_addr :: "byte list \<Rightarrow> byte list" where
  "sin6_addr a = drop 8 a"

text \<open>
  \<open>struct pending\<close>: the transaction id, the destination (storage and length), the chosen
  egress comm point (\<open>None\<close> is the null pointer), the timer (\<open>None\<close> while it is not
  armed, \<open>Some (sec, usec)\<close> once \<open>comm_timer_set\<close> has armed it), and the user callback with
  its argument (both opaque, modelled by their addresses).
\<close>

record pending =
  pend_id :: "16 word"
  pend_addr :: "byte list"
  pend_addrlen :: nat
  pend_c :: "comm_point option"
  pend_timer :: "(int \<times> int) option"
  pend_cb :: nat
  pend_cb_arg :: nat

text \<open>
  \<open>memcmp\<close> over the first \<open>n\<close> bytes of two blocks: zero when they agree, otherwise the
  difference of the first two bytes that differ, read as unsigned. The last equation covers
  \<open>n = 0\<close>; a block shorter than \<open>n\<close> is excluded by \<open>wf_pending\<close> below.
\<close>

fun memcmp :: "byte list \<Rightarrow> byte list \<Rightarrow> nat \<Rightarrow> int" where
  "memcmp (x # xs) (y # ys) (Suc n) = (if x = y then memcmp xs ys n else uint x - uint y)"
| "memcmp _ _ _ = 0"

text \<open>The comparison function of the pending tree, branch by branch as in the source.\<close>

definition pending_cmp :: "pending \<Rightarrow> pending \<Rightarrow> int" where
  "pending_cmp p1 p2 =
    (if pend_id p1 < pend_id p2 then -1
     else if pend_id p1 > pend_id p2 then 1
     else if pend_addrlen p1 < pend_addrlen p2 then -1
     else if pend_addrlen p1 > pend_addrlen p2 then 1
     else if sin_family (pend_addr p1) < sin_family (pend_addr p2) then -1
     else if sin_family (pend_addr p1) > sin_family (pend_addr p2) then 1
     else if sin_family (pend_addr p1) = AF_INET then
       (if sin_port (pend_addr p1) < sin_port (pend_addr p2) then -1
        else if sin_port (pend_addr p1) > sin_port (pend_addr p2) then 1
        else memcmp (sin_addr (pend_addr p1)) (sin_addr (pend_addr p2)) INET_SIZE)
     else if sin6_family (pend_addr p1) = AF_INET6 then
       (if sin6_port (pend_addr p1) < sin6_port (pend_addr p2) then -1
        else if sin6_port (pend_addr p1) > sin6_port (pend_addr p2) then 1
        else memcmp (sin6_addr (pend_addr p1)) (sin6_addr (pend_addr p2)) INET6_SIZE)
     else memcmp (pend_addr p1) (pend_addr p2) (pend_addrlen p1))"

text \<open>
  A pending struct is well formed when its address block has the size of a
  \<open>struct sockaddr_storage\<close> and its address length does not exceed that size.
\<close>

definition wf_pending :: "pending \<Rightarrow> bool" where
  "wf_pending p \<longleftrightarrow>
     length (pend_addr p) = SOCKADDR_STORAGE_SIZE \<and> pend_addrlen p \<le> SOCKADDR_STORAGE_SIZE"

text \<open>
  The key tuple in the words of the specification: id, address length, family, port, and the
  raw address bytes (4 for IPv4, 16 for IPv6); for any other family the port component is
  void and the bytes are the first \<open>addrlen\<close> bytes of the address storage. Tuples and byte
  lists carry their lexicographic orders.
\<close>

definition key_tuple :: "pending \<Rightarrow> 16 word \<times> nat \<times> 16 word \<times> 16 word \<times> byte list" where
  "key_tuple p =
    (pend_id p, pend_addrlen p, sin_family (pend_addr p),
     (if sin_family (pend_addr p) = AF_INET then
        (sin_port (pend_addr p), take INET_SIZE (sin_addr (pend_addr p)))
      else if sin_family (pend_addr p) = AF_INET6 then
        (sin6_port (pend_addr p), take INET6_SIZE (sin6_addr (pend_addr p)))
      else (0, take (pend_addrlen p) (pend_addr p))))"


section \<open>Collaborators\<close>

text \<open>
  The dispatcher calls into the event layer, the red-black tree, the ldns buffer macros and
  the random generator. None of them is part of this file; each is modelled here, or taken
  as a parameter (\<open>env\<close>, \<open>world\<close>), so that the functions of the file itself can be
  translated statement by statement.

  What the dispatcher does to the outside is recorded as a list of events, in order: error
  and info log lines (by their format string; \<open>verbose\<close> diagnostics are left out), calls of
  the user callback \<open>(*cb)(c, cb_arg, status, NULL)\<close>, send attempts, tree lookups, and
  the creation and deletion of comm points. The user callback is opaque: it is recorded and
  takes no part in the state of the dispatcher.
\<close>

datatype fault = Assertion_failed | Out_of_bounds

datatype event =
    Log_err string
  | Log_info string
  | Callback nat "comm_point option" nat int
  | Send_udp_msg "comm_point option" "byte list" "byte list" nat
  | Rbtree_search pending
  | Comm_point_create_udp int "comm_point option"
  | Comm_point_delete "comm_point option"
  | Free_outside_network

text \<open>The events that are calls of the user callback.\<close>

fun is_callback :: "event \<Rightarrow> bool" where
  "is_callback (Callback cb c arg status) \<longleftrightarrow> True"
| "is_callback ev \<longleftrightarrow> False"

text \<open>
  \<open>struct outside_network\<close>: the two port arrays with their counts and the pending tree.
  The reactor handle and the shared receive buffer are opaque and left out; the datagram
  the buffer holds is an argument of the reply handler.
\<close>

record outside_network =
  num_udp4 :: nat
  num_udp6 :: nat
  udp4_ports :: "comm_point option list"
  udp6_ports :: "comm_point option list"
  pending_tree :: "pending list"

text \<open>
  Modelled from the spec: the red-black tree of \<open>util/rbtree.c\<close>, which is not among the
  sources. The specification gives its operations: \<open>insert\<close> fails if a colliding key is
  already present, \<open>lookup\<close> returns the entry with the key if there is one, \<open>remove\<close>
  unlinks it. The tree is a list of the pending structs it links; two keys collide when the
  comparison function returns 0.
\<close>

definition rbtree_search :: "pending list \<Rightarrow> pending \<Rightarrow> pending option" where
  "rbtree_search tree key = find (\<lambda>p. pending_cmp key p = 0) tree"

definition rbtree_insert :: "pending list \<Rightarrow> pending \<Rightarrow> pending list option" where
  "rbtree_insert tree data =
     (case rbtree_search tree data of Some p \<Rightarrow> None | None \<Rightarrow> Some (data # tree))"

fun rbtree_delete :: "pending list \<Rightarrow> pending \<Rightarrow> pending list" where
  "rbtree_delete [] key = []"
| "rbtree_delete (p # tree) key =
     (if pending_cmp key p = 0 then tree else p # rbtree_delete tree key)"

text \<open>
  The tree links the pending structs themselves, so a field written through a
  \<open>struct pending*\<close> after insertion changes the struct in the tree. In the model the
  record with that key is replaced.
\<close>

definition tree_update :: "pending list \<Rightarrow> pending \<Rightarrow> pending list" where
  "tree_update tree p = map (\<lambda>q. if pending_cmp p q = 0 then p else q) tree"

text \<open>
  Modelled from the spec: the ldns macros \<open>LDNS_ID_SET\<close> and \<open>LDNS_ID_WIRE\<close>. The
  transaction id occupies bytes 0 and 1 of the datagram in network byte order.
\<close>

definition LDNS_ID_SET :: "byte list \<Rightarrow> 16 word \<Rightarrow> byte list" where
  "LDNS_ID_SET wirebuf v = wirebuf[0 := ucast (drop_bit 8 v), 1 := ucast v]"

definition LDNS_ID_WIRE :: "byte list \<Rightarrow> 16 word" where
  "LDNS_ID_WIRE wirebuf = word_cat (wirebuf ! 0) (wirebuf ! 1)"

text \<open>\<open>memcpy(dst, src, n)\<close> on blocks of bytes.\<close>

definition memcpy :: "byte list \<Rightarrow> byte list \<Rightarrow> nat \<Rightarrow> byte list" where
  "memcpy dst src n = take n src @ drop n dst"

text \<open>
  The random state is the sequence of values \<open>ub_random\<close> is going to return; a call
  returns the first and leaves the rest.
\<close>

type_synonym ub_randstate = "nat \<Rightarrow> int"

definition ub_random :: "ub_randstate \<Rightarrow> int \<times> ub_randstate" where
  "ub_random rnd = (rnd 0, \<lambda>n. rnd (Suc n))"

text \<open>
  What a submit depends on besides its arguments: whether \<open>calloc\<close> and
  \<open>comm_timer_create\<close> succeed, the result of the double-precision computation
  \<open>(int)((double)r * (double)nummax / ((double)RAND_MAX + 1.0))\<close> in \<open>select_port\<close>
  (as a function of the draw \<open>r\<close> and of \<open>nummax\<close>; nothing is assumed of it), and
  whether \<open>comm_point_send_udp_msg\<close> reports success.
\<close>

record env =
  calloc_ok :: bool
  comm_timer_create_ok :: bool
  precho_int :: "int \<Rightarrow> int \<Rightarrow> int"
  comm_point_send_udp_msg :: "comm_point option \<Rightarrow> byte list \<Rightarrow> byte list \<Rightarrow> nat \<Rightarrow> bool"

section \<open>Reply, timeout and destruction\<close>

text \<open>
  \<open>pending_delete(outnet, p)\<close> with both pointers set: the entry is unlinked from the
  tree, the timer deleted and the struct freed, so the record is gone. The call
  \<open>pending_delete(NULL, pend)\<close> of \<open>new_pending\<close> only releases a struct that is in no
  tree; there the model drops the record.
\<close>

definition pending_delete :: "outside_network \<Rightarrow> pending \<Rightarrow> outside_network" where
  "pending_delete outnet p = outnet\<lparr>pending_tree := rbtree_delete (pending_tree outnet) p\<rparr>"

text \<open>\<open>struct comm_reply\<close>: the source address of the datagram and its length.\<close>

record comm_reply =
  reply_addr :: "byte list"
  reply_addrlen :: nat

text \<open>
  The lookup key of a reply: the local \<open>struct pending key\<close> is not initialised (\<open>key0\<close>
  is its content on entry); the handler sets its id from the first two bytes of the
  datagram, copies \<open>addrlen\<close> bytes of the source address into its address block and sets
  its address length.
\<close>

definition reply_key :: "pending \<Rightarrow> byte list \<Rightarrow> comm_reply \<Rightarrow> pending" where
  "reply_key key0 buffer ri =
     key0\<lparr>pend_id := LDNS_ID_WIRE buffer,
          pend_addr := memcpy (pend_addr key0) (reply_addr ri) (reply_addrlen ri),
          pend_addrlen := reply_addrlen ri\<rparr>"

text \<open>
  The handler of incoming datagrams. \<open>c\<close> is the comm point that received the datagram
  and \<open>buffer\<close> the datagram in its buffer. The handler returns 0 on every path; the result
  given here is the state it leaves and the events.
\<close>

definition outnet_udp_cb ::
  "pending \<Rightarrow> comm_point \<Rightarrow> byte list \<Rightarrow> outside_network \<Rightarrow> int \<Rightarrow> comm_reply option \<Rightarrow>
     fault + (outside_network \<times> event list)" where
  "outnet_udp_cb key0 c buffer outnet error reply_info =
    (if error \<noteq> NETEVENT_NOERROR then Inr (outnet, [Log_info ''outnetudp got udp error %d''])
     else case reply_info of
       None \<Rightarrow> Inl Assertion_failed
     | Some ri \<Rightarrow>
        (case rbtree_search (pending_tree outnet) (reply_key key0 buffer ri) of
           None \<Rightarrow> Inr (outnet, [Rbtree_search (reply_key key0 buffer ri)])
         | Some p \<Rightarrow>
            (if pend_c p \<noteq> Some c then Inr (outnet, [Rbtree_search (reply_key key0 buffer ri)])
             else
               Inr (pending_delete
                      (outnet\<lparr>pending_tree :=
                         tree_update (pending_tree outnet) (p\<lparr>pend_timer := None\<rparr>)\<rparr>)
                      (p\<lparr>pend_timer := None\<rparr>),
                    [Rbtree_search (reply_key key0 buffer ri),
                     Callback (pend_cb p) (pend_c p) (pend_cb_arg p) NETEVENT_NOERROR]))))"

text \<open>The timer handler; \<open>p->outnet\<close> is the dispatcher the pending belongs to.\<close>

definition pending_udp_timer_cb :: "outside_network \<Rightarrow> pending \<Rightarrow> outside_network \<times> event list" where
  "pending_udp_timer_cb outnet p =
     (pending_delete outnet p, [Callback (pend_cb p) (pend_c p) (pend_cb_arg p) NETEVENT_TIMEOUT])"

section \<open>Submit\<close>

text \<open>\<open>((unsigned)ub_random(rnd)>>8) & 0xffff\<close>, stored in the 16-bit id.\<close>

definition gen_id :: "int \<Rightarrow> 16 word" where
  "gen_id r = ucast (drop_bit 8 (word_of_int r :: 32 word) AND 0xffff)"

text \<open>
  The insertion loop of \<open>new_pending\<close>. \<open>id_tries\<close> is a C \<open>int\<close>, here a 32-bit word
  (it starts at 0 and the loop leaves at 1000, so it never wraps). The result is the pending
  with the grown tree, or nothing after \<open>MAX_ID_RETRY\<close> collisions, with the packet, the
  random state and the events.
\<close>

definition MAX_ID_RETRY_int :: "32 word" where
  "MAX_ID_RETRY_int = word_of_nat MAX_ID_RETRY"

function new_pending_loop ::
  "pending list \<Rightarrow> pending \<Rightarrow> byte list \<Rightarrow> ub_randstate \<Rightarrow> 32 word \<Rightarrow>
     (pending \<times> pending list) option \<times> byte list \<times> ub_randstate \<times> event list" where
  "new_pending_loop tree pend packet rnd id_tries =
     (case rbtree_insert tree pend of
        Some tree' \<Rightarrow> (Some (pend, tree'), packet, rnd, [])
      | None \<Rightarrow>
         (if id_tries + 1 = MAX_ID_RETRY_int then
            (None, LDNS_ID_SET packet (gen_id (fst (ub_random rnd))), snd (ub_random rnd),
             [Log_err ''failed to generate unique ID, drop msg''])
          else
            new_pending_loop tree (pend\<lparr>pend_id := gen_id (fst (ub_random rnd))\<rparr>)
              (LDNS_ID_SET packet (gen_id (fst (ub_random rnd)))) (snd (ub_random rnd))
              (id_tries + 1)))"
  by pat_completeness auto
termination
proof (relation "measure (\<lambda>(tree, pend, packet, rnd, id_tries). unat (MAX_ID_RETRY_int - 1 - id_tries))")
  show "wf (measure (\<lambda>(tree, pend, packet, rnd, id_tries). unat (MAX_ID_RETRY_int - 1 - id_tries)))"
    by simp
next
  fix tree :: "pending list" and pend :: pending and packet :: "byte list"
    and rnd :: ub_randstate and id_tries :: "32 word"
  assume "id_tries + 1 \<noteq> MAX_ID_RETRY_int"
  then have "MAX_ID_RETRY_int - 1 - id_tries \<noteq> 0"
    by (auto simp: diff_eq_eq)
  then have "unat (MAX_ID_RETRY_int - 1 - id_tries - 1) < unat (MAX_ID_RETRY_int - 1 - id_tries)"
    by (rule measure_unat)
  moreover have "MAX_ID_RETRY_int - 1 - (id_tries + 1) = MAX_ID_RETRY_int - 1 - id_tries - 1"
    by simp
  ultimately show "((tree, pend\<lparr>pend_id := gen_id (fst (ub_random rnd))\<rparr>,
             LDNS_ID_SET packet (gen_id (fst (ub_random rnd))), snd (ub_random rnd), id_tries + 1),
            tree, pend, packet, rnd, id_tries)
           \<in> measure (\<lambda>(tree, pend, packet, rnd, id_tries). unat (MAX_ID_RETRY_int - 1 - id_tries))"
    by simp
qed

text \<open>
  \<open>new_pending\<close>: the struct comes zeroed from \<open>calloc\<close>, so the chosen comm point is
  null and the bytes of the address block after \<open>addrlen\<close> are 0; \<open>calloc_pending\<close> is the
  struct once id, address, length and callback have been set.
\<close>

definition calloc_pending :: "16 word \<Rightarrow> byte list \<Rightarrow> nat \<Rightarrow> nat \<Rightarrow> nat \<Rightarrow> pending" where
  "calloc_pending v addr addrlen callback callback_arg =
     \<lparr>pend_id = v, pend_addr = memcpy (replicate SOCKADDR_STORAGE_SIZE 0) addr addrlen,
      pend_addrlen = addrlen, pend_c = None, pend_timer = None,
      pend_cb = callback, pend_cb_arg = callback_arg\<rparr>"

definition new_pending ::
  "env \<Rightarrow> outside_network \<Rightarrow> byte list \<Rightarrow> byte list \<Rightarrow> nat \<Rightarrow> nat \<Rightarrow> nat \<Rightarrow> ub_randstate \<Rightarrow>
     pending option \<times> outside_network \<times> byte list \<times> ub_randstate \<times> event list" where
  "new_pending e outnet packet addr addrlen callback callback_arg rnd =
    (if \<not> calloc_ok e then (None, outnet, packet, rnd, [Log_err ''malloc failure''])
     else if \<not> comm_timer_create_ok e then (None, outnet, packet, rnd, [])
     else
       (case new_pending_loop (pending_tree outnet)
               (calloc_pending (gen_id (fst (ub_random rnd))) addr addrlen callback callback_arg)
               (LDNS_ID_SET packet (gen_id (fst (ub_random rnd)))) (snd (ub_random rnd)) 0 of
          (None, packet', rnd', evs) \<Rightarrow> (None, outnet, packet', rnd', evs)
        | (Some (pend', tree'), packet', rnd', evs) \<Rightarrow>
            (Some pend', outnet\<lparr>pending_tree := tree'\<rparr>, packet', rnd', evs)))"

text \<open>\<open>short family = *(short* )addr\<close>, compared with the constant \<open>AF_INET6\<close>.\<close>

definition addr_is_ip6 :: "byte list \<Rightarrow> bool" where
  "addr_is_ip6 a \<longleftrightarrow> sint (host_u16 a 0) = uint AF_INET6"

text \<open>The cast \<open>(int)\<close> of a \<open>size_t\<close>: the low 32 bits, read as two's complement.\<close>

definition size_t_to_int :: "nat \<Rightarrow> int" where
  "size_t_to_int n = sint (word_of_nat n :: 32 word)"

text \<open>
  \<open>select_port\<close> fills in \<open>pend->c\<close>. With no port of the family it logs and returns,
  leaving the pending as it is and the random state untouched. The read of the port array
  is guarded in the model: an index outside the array is a fault, and so is a null entry
  (\<open>log_assert(pend->c)\<close>).
\<close>

definition select_port ::
  "env \<Rightarrow> outside_network \<Rightarrow> pending \<Rightarrow> ub_randstate \<Rightarrow>
     fault + (pending \<times> ub_randstate \<times> event list)" where
  "select_port e outnet pend rnd =
    (let nummax = (if addr_is_ip6 (pend_addr pend) then size_t_to_int (num_udp6 outnet)
                   else size_t_to_int (num_udp4 outnet))
     in if nummax = 0 then
          Inr (pend, rnd, [Log_err ''Need to send query but have no ports of that family''])
        else
          (let chosen0 = precho_int e (fst (ub_random rnd)) nummax;
               chosen1 = (if chosen0 < 0 then 0 else chosen0);
               chosen = (if chosen1 \<ge> nummax then nummax - 1 else chosen1);
               ports = (if addr_is_ip6 (pend_addr pend) then udp6_ports outnet
                        else udp4_ports outnet)
           in if chosen < 0 \<or> int (length ports) \<le> chosen then Inl Out_of_bounds
              else case ports ! nat chosen of
                     None \<Rightarrow> Inl Assertion_failed
                   | Some cp \<Rightarrow> Inr (pend\<lparr>pend_c := Some cp\<rparr>, snd (ub_random rnd), [])))"

text \<open>
  \<open>pending_udp_query\<close>, the submit operation. It returns nothing; the result here is the
  dispatcher, the packet (patched in place), the random state and the events.
\<close>

definition pending_udp_query ::
  "env \<Rightarrow> outside_network \<Rightarrow> byte list \<Rightarrow> byte list \<Rightarrow> nat \<Rightarrow> int \<Rightarrow> nat \<Rightarrow> nat \<Rightarrow> ub_randstate \<Rightarrow>
     fault + (outside_network \<times> byte list \<times> ub_randstate \<times> event list)" where
  "pending_udp_query e outnet packet addr addrlen timeout cb cb_arg rnd =
    (case new_pending e outnet packet addr addrlen cb cb_arg rnd of
       (None, outnet1, packet1, rnd1, evs1) \<Rightarrow>
          Inr (outnet1, packet1, rnd1, evs1 @ [Callback cb None cb_arg NETEVENT_CLOSED])
     | (Some pend, outnet1, packet1, rnd1, evs1) \<Rightarrow>
         (case select_port e outnet1 pend rnd1 of
            Inl f \<Rightarrow> Inl f
          | Inr (pend2, rnd2, evs2) \<Rightarrow>
             (let outnet2 = outnet1\<lparr>pending_tree := tree_update (pending_tree outnet1) pend2\<rparr>
              in if \<not> comm_point_send_udp_msg e (pend_c pend2) packet1 addr addrlen then
                   Inr (pending_delete outnet2 pend2, packet1, rnd2,
                     evs1 @ evs2 @
                     [Send_udp_msg (pend_c pend2) packet1 addr addrlen,
                      Callback (pend_cb pend2) (pend_c pend2) (pend_cb_arg pend2) NETEVENT_CLOSED])
                 else
                   Inr (outnet2\<lparr>pending_tree :=
                          tree_update (pending_tree outnet2) (pend2\<lparr>pend_timer := Some (timeout, 0)\<rparr>)\<rparr>,
                     packet1, rnd2,
                     evs1 @ evs2 @ [Send_udp_msg (pend_c pend2) packet1 addr addrlen]))))"

section \<open>Construction and teardown\<close>

text \<open>
  \<open>struct addrinfo\<close> as far as the hints of \<open>make_udp_range\<close> set it, with the
  constants of the socket interface.
\<close>

record addrinfo =
  ai_flags :: "32 word"
  ai_family :: int
  ai_socktype :: int

definition AI_PASSIVE :: "32 word" where
  "AI_PASSIVE = 1"

definition AI_NUMERICHOST :: "32 word" where
  "AI_NUMERICHOST = 4"

definition AF_UNSPEC :: int where
  "AF_UNSPEC = 0"

definition SOCK_DGRAM :: int where
  "SOCK_DGRAM = 2"

text \<open>
  What construction depends on besides its arguments: whether the file is compiled with
  \<open>INET6\<close>, the test \<open>str_is_ip6\<close> of an interface name, whether each allocation of
  \<open>outside_network_create\<close> succeeds, and, for the \<open>k\<close>-th attempt to open a port
  (counted over the whole construction), what \<open>getaddrinfo\<close> and \<open>create_udp_sock\<close>
  give for the interface, port string and hints, and what \<open>comm_point_create_udp\<close> gives
  for the descriptor.
\<close>

datatype sock_result = Getaddrinfo_failed | Socket int

record world =
  have_INET6 :: bool
  str_is_ip6 :: "string \<Rightarrow> bool"
  calloc_outnet_ok :: bool
  ldns_buffer_new_ok :: bool
  calloc_udp4_ports_ok :: bool
  calloc_udp6_ports_ok :: bool
  rbtree_create_ok :: bool
  udp_sock :: "nat \<Rightarrow> string option \<Rightarrow> int option \<Rightarrow> addrinfo \<Rightarrow> sock_result"
  comm_point_create_udp :: "nat \<Rightarrow> int \<Rightarrow> comm_point option"

text \<open>
  \<open>open_udp_port_range\<close>: the port string is passed only when \<open>porthint\<close> is not -1;
  the result is the descriptor, or -1 with an error line when \<open>getaddrinfo\<close> fails.
\<close>

definition open_udp_port_range ::
  "world \<Rightarrow> nat \<Rightarrow> string option \<Rightarrow> addrinfo \<Rightarrow> int \<Rightarrow> int \<times> event list" where
  "open_udp_port_range w k ifname hints porthint =
     (case udp_sock w k ifname (if porthint = -1 then None else Some porthint) hints of
        Getaddrinfo_failed \<Rightarrow> (-1, [Log_err ''node %s %s getaddrinfo: %s %s''])
      | Socket s \<Rightarrow> (s, []))"

text \<open>
  The loop of \<open>make_udp_range\<close>. \<open>coms\<close> is the whole port array and \<open>off\<close> the position
  in it that the pointer argument of the source points to, so \<open>coms[done]\<close> of the source is
  the entry \<open>off + ndone\<close>. The result is the number of ports opened, the array, the
  attempt counter and the events.
\<close>

function make_udp_range_loop ::
  "world \<Rightarrow> string option \<Rightarrow> addrinfo \<Rightarrow> nat \<Rightarrow> nat \<Rightarrow> comm_point option list \<Rightarrow> nat \<Rightarrow> nat \<Rightarrow>
     int \<Rightarrow> nat \<Rightarrow> event list \<Rightarrow> nat \<times> comm_point option list \<times> nat \<times> event list" where
  "make_udp_range_loop w ifname hints num_ports i coms off ndone porthint k evs =
    (if i < num_ports then
       (if fst (open_udp_port_range w k ifname hints porthint) = -1 then
          make_udp_range_loop w ifname hints num_ports (i + 1) coms off ndone
            (if porthint \<noteq> -1 then porthint + 1 else porthint) (k + 1)
            (evs @ snd (open_udp_port_range w k ifname hints porthint))
        else
          make_udp_range_loop w ifname hints num_ports (i + 1)
            (coms[off + ndone :=
               comm_point_create_udp w k (fst (open_udp_port_range w k ifname hints porthint))])
            off
            (if comm_point_create_udp w k (fst (open_udp_port_range w k ifname hints porthint))
                  \<noteq> None
             then ndone + 1 else ndone)
            (if porthint \<noteq> -1 then porthint + 1 else porthint) (k + 1)
            (evs @ snd (open_udp_port_range w k ifname hints porthint) @
             [Comm_point_create_udp (fst (open_udp_port_range w k ifname hints porthint))
                (comm_point_create_udp w k
                   (fst (open_udp_port_range w k ifname hints porthint)))]))
     else (ndone, coms, k, evs))"
  by pat_completeness auto
termination
  by (relation "measure (\<lambda>(w, ifname, hints, num_ports, i, rest). num_ports - i)") auto

definition make_udp_range ::
  "world \<Rightarrow> comm_point option list \<Rightarrow> nat \<Rightarrow> string option \<Rightarrow> nat \<Rightarrow> bool \<Rightarrow> bool \<Rightarrow> int \<Rightarrow> nat \<Rightarrow>
     nat \<times> comm_point option list \<times> nat \<times> event list" where
  "make_udp_range w coms off ifname num_ports do_ip4 do_ip6 porthint k =
     make_udp_range_loop w ifname
       \<lparr>ai_flags = (if ifname \<noteq> None then AI_PASSIVE OR AI_NUMERICHOST else AI_PASSIVE),
        ai_family = (if do_ip4 \<and> do_ip6 then AF_UNSPEC
                     else if do_ip4 then uint AF_INET
                     else if do_ip6 then uint AF_INET6
                     else AF_UNSPEC),
        ai_socktype = SOCK_DGRAM\<rparr>
       num_ports 0 coms off 0 porthint k []"

text \<open>\<open>calc_num46\<close>: the requested number of ports per family.\<close>

fun calc_num46_loop ::
  "world \<Rightarrow> string list \<Rightarrow> bool \<Rightarrow> bool \<Rightarrow> nat \<Rightarrow> nat \<Rightarrow> nat \<Rightarrow> nat \<times> nat" where
  "calc_num46_loop w [] do_ip4 do_ip6 multiplier num_ip4 num_ip6 = (num_ip4, num_ip6)"
| "calc_num46_loop w (ifname # ifs) do_ip4 do_ip6 multiplier num_ip4 num_ip6 =
     (if str_is_ip6 w ifname then
        calc_num46_loop w ifs do_ip4 do_ip6 multiplier num_ip4
          (if do_ip6 then num_ip6 + multiplier else num_ip6)
      else
        calc_num46_loop w ifs do_ip4 do_ip6 multiplier
          (if do_ip4 then num_ip4 + multiplier else num_ip4) num_ip6)"

definition calc_num46 :: "world \<Rightarrow> string list \<Rightarrow> bool \<Rightarrow> bool \<Rightarrow> nat \<Rightarrow> nat \<times> nat" where
  "calc_num46 w ifs do_ip4 do_ip6 multiplier =
     (if length ifs \<le> 0 then
        (if do_ip4 then multiplier else 0, if do_ip6 then multiplier else 0)
      else calc_num46_loop w ifs do_ip4 do_ip6 multiplier 0 0)"

text \<open>
  \<open>outside_network_delete\<close>. It can be called on a struct that is only partly built, so
  it tests each pointer; \<open>outnet_ptrs\<close> says which pointers of the struct are set, and
  \<open>None\<close> is the null dispatcher. The pendings of the tree are released without a
  callback and the buffer is freed, which leave no event; every entry of the two arrays
  below the port counts is handed to \<open>comm_point_delete\<close>, and the struct is freed.
\<close>

record outnet_ptrs =
  pending_set :: bool
  udp_buff_set :: bool
  udp4_ports_set :: bool
  udp6_ports_set :: bool

definition outside_network_delete :: "(outnet_ptrs \<times> outside_network) option \<Rightarrow> event list" where
  "outside_network_delete x =
     (case x of
        None \<Rightarrow> []
      | Some (ptrs, outnet) \<Rightarrow>
          (if udp4_ports_set ptrs
           then map (\<lambda>i. Comm_point_delete (udp4_ports outnet ! i)) [0..<num_udp4 outnet]
           else [])
          @ (if udp6_ports_set ptrs
             then map (\<lambda>i. Comm_point_delete (udp6_ports outnet ! i)) [0..<num_udp6 outnet]
             else [])
          @ [Free_outside_network])"

definition all_set :: outnet_ptrs where
  "all_set = \<lparr>pending_set = True, udp_buff_set = True, udp4_ports_set = True,
              udp6_ports_set = True\<rparr>"

text \<open>
  The struct of \<open>outside_network_create\<close> once the requested counts are computed and the
  arrays allocated: \<open>calloc\<close> gives one entry more than requested, all null.
\<close>

definition outnet_calloc :: "world \<Rightarrow> string list \<Rightarrow> bool \<Rightarrow> bool \<Rightarrow> nat \<Rightarrow> outside_network" where
  "outnet_calloc w ifs do_ip4 do_ip6 num_ports =
     \<lparr>num_udp4 = fst (calc_num46 w ifs do_ip4 do_ip6 num_ports),
      num_udp6 = snd (calc_num46 w ifs do_ip4 do_ip6 num_ports),
      udp4_ports = replicate (fst (calc_num46 w ifs do_ip4 do_ip6 num_ports) + 1) None,
      udp6_ports = replicate (snd (calc_num46 w ifs do_ip4 do_ip6 num_ports) + 1) None,
      pending_tree = []\<rparr>"

text \<open>
  The branch \<open>num_ifs == 0\<close>: IPv6 ports first, then IPv4 ports, on the default
  interface; each count is overwritten with the number of ports opened. The result carries
  the attempt counter and the events.
\<close>

definition open_default_ports ::
  "world \<Rightarrow> outside_network \<Rightarrow> nat \<Rightarrow> bool \<Rightarrow> bool \<Rightarrow> int \<Rightarrow> outside_network \<times> nat \<times> event list" where
  "open_default_ports w outnet num_ports do_ip4 do_ip6 port_base =
     (case (if do_ip6 then
              (case make_udp_range w (udp6_ports outnet) 0 None num_ports False True port_base 0 of
                 (n, coms, k, evs) \<Rightarrow> (outnet\<lparr>num_udp6 := n, udp6_ports := coms\<rparr>, k, evs))
            else (outnet, 0, [])) of
        (outnet6, k6, evs6) \<Rightarrow>
          (if do_ip4 then
             (case make_udp_range w (udp4_ports outnet6) 0 None num_ports True False port_base k6 of
                (n, coms, k, evs) \<Rightarrow> (outnet6\<lparr>num_udp4 := n, udp4_ports := coms\<rparr>, k, evs6 @ evs))
           else (outnet6, k6, evs6)))"

text \<open>
  The body of the loop over the interfaces, and the loop. The state is the struct, the
  counters \<open>done_4\<close> and \<open>done_6\<close>, the attempt counter and the events.
\<close>

definition open_if_port ::
  "world \<Rightarrow> string \<Rightarrow> nat \<Rightarrow> bool \<Rightarrow> bool \<Rightarrow> int \<Rightarrow>
     outside_network \<times> nat \<times> nat \<times> nat \<times> event list \<Rightarrow>
     outside_network \<times> nat \<times> nat \<times> nat \<times> event list" where
  "open_if_port w ifname num_ports do_ip4 do_ip6 port_base st =
     (case st of (outnet, done_4, done_6, k, evs) \<Rightarrow>
       (case (if str_is_ip6 w ifname \<and> do_ip6 then
                (case make_udp_range w (udp6_ports outnet) done_6 (Some ifname) num_ports
                        False True port_base k of
                   (n, coms, k', evs') \<Rightarrow>
                     (outnet\<lparr>udp6_ports := coms\<rparr>, done_4, done_6 + n, k', evs @ evs'))
              else st) of
          (outnet6, done_4', done_6', k6, evs6) \<Rightarrow>
            (if \<not> str_is_ip6 w ifname \<and> do_ip4 then
               (case make_udp_range w (udp4_ports outnet6) done_4' (Some ifname) num_ports
                       True False port_base k6 of
                  (n, coms, k', evs') \<Rightarrow>
                    (outnet6\<lparr>udp4_ports := coms\<rparr>, done_4' + n, done_6', k', evs6 @ evs'))
             else (outnet6, done_4', done_6', k6, evs6))))"

fun open_if_ports ::
  "world \<Rightarrow> string list \<Rightarrow> nat \<Rightarrow> bool \<Rightarrow> bool \<Rightarrow> int \<Rightarrow>
     outside_network \<times> nat \<times> nat \<times> nat \<times> event list \<Rightarrow>
     outside_network \<times> nat \<times> nat \<times> nat \<times> event list" where
  "open_if_ports w [] num_ports do_ip4 do_ip6 port_base st = st"
| "open_if_ports w (ifname # ifs) num_ports do_ip4 do_ip6 port_base st =
     open_if_ports w ifs num_ports do_ip4 do_ip6 port_base
       (open_if_port w ifname num_ports do_ip4 do_ip6 port_base st)"

text \<open>
  \<open>outside_network_create\<close>: the dispatcher, or nothing after the teardown of what was
  built, with the events. \<open>ifs\<close> is the array of interface names and \<open>num_ifs\<close> its length.
\<close>

definition outside_network_create ::
  "world \<Rightarrow> nat \<Rightarrow> nat \<Rightarrow> string list \<Rightarrow> bool \<Rightarrow> bool \<Rightarrow> int \<Rightarrow>
     outside_network option \<times> event list" where
  "outside_network_create w bufsize num_ports ifs do_ip4 do_ip6_arg port_base =
    (if \<not> calloc_outnet_ok w then (None, [Log_err ''malloc failed''])
     else
       (let do_ip6 = (have_INET6 w \<and> do_ip6_arg);
            outnet = outnet_calloc w ifs do_ip4 do_ip6 num_ports
        in if \<not> ldns_buffer_new_ok w then
             (None, Log_err ''malloc failed'' #
                outside_network_delete (Some (\<lparr>pending_set = False, udp_buff_set = False,
                  udp4_ports_set = False, udp6_ports_set = False\<rparr>, outnet)))
           else if \<not> calloc_udp4_ports_ok w then
             (None, Log_err ''malloc failed'' #
                outside_network_delete (Some (\<lparr>pending_set = False, udp_buff_set = True,
                  udp4_ports_set = False, udp6_ports_set = False\<rparr>, outnet)))
           else if \<not> calloc_udp6_ports_ok w then
             (None, Log_err ''malloc failed'' #
                outside_network_delete (Some (\<lparr>pending_set = False, udp_buff_set = True,
                  udp4_ports_set = True, udp6_ports_set = False\<rparr>, outnet)))
           else if \<not> rbtree_create_ok w then
             (None, Log_err ''malloc failed'' #
                outside_network_delete (Some (\<lparr>pending_set = False, udp_buff_set = True,
                  udp4_ports_set = True, udp6_ports_set = True\<rparr>, outnet)))
           else if length ifs = 0 then
             (case open_default_ports w outnet num_ports do_ip4 do_ip6 port_base of
                (outnet', k, evs) \<Rightarrow>
                  (if (do_ip4 \<and> num_udp4 outnet' \<noteq> num_ports)
                      \<or> (do_ip6 \<and> num_udp6 outnet' \<noteq> num_ports) then
                     (None, evs @ Log_err ''Could not open all networkside ports'' #
                        outside_network_delete (Some (all_set, outnet')))
                   else (Some outnet', evs)))
           else
             (case open_if_ports w ifs num_ports do_ip4 do_ip6 port_base (outnet, 0, 0, 0, []) of
                (outnet', done_4, done_6, k, evs) \<Rightarrow>
                  (if done_6 \<noteq> num_udp6 outnet' \<or> done_4 \<noteq> num_udp4 outnet' then
                     (None, evs @ Log_err ''Could not open all ports on all interfaces'' #
                        outside_network_delete (Some (all_set, outnet')))
                   else (Some (outnet'\<lparr>num_udp6 := done_6, num_udp4 := done_4\<rparr>), evs)))))"

text \<open>
  The number of ports opened per family when construction reaches its check: the counts
  \<open>num_udp4\<close> and \<open>num_udp6\<close> as \<open>make_udp_range\<close> returned them without interfaces,
  \<open>done_4\<close> and \<open>done_6\<close> with interfaces.
\<close>

definition opened_counts ::
  "world \<Rightarrow> nat \<Rightarrow> string list \<Rightarrow> bool \<Rightarrow> bool \<Rightarrow> int \<Rightarrow> nat \<times> nat" where
  "opened_counts w num_ports ifs do_ip4 do_ip6 port_base =
     (if length ifs = 0 then
        (case open_default_ports w (outnet_calloc w ifs do_ip4 do_ip6 num_ports) num_ports
                do_ip4 do_ip6 port_base of
           (outnet', k, evs) \<Rightarrow> (num_udp4 outnet', num_udp6 outnet'))
      else
        (case open_if_ports w ifs num_ports do_ip4 do_ip6 port_base
                (outnet_calloc w ifs do_ip4 do_ip6 num_ports, 0, 0, 0, []) of
           (outnet', done_4, done_6, k, evs) \<Rightarrow> (done_4, done_6)))"

text \<open>The comm points created and the comm points deleted, read off the events.\<close>

fun created_comm :: "event list \<Rightarrow> comm_point list" where
  "created_comm [] = []"
| "created_comm (Comm_point_create_udp fd (Some c) # evs) = c # created_comm evs"
| "created_comm (ev # evs) = created_comm evs"

fun deleted_comm :: "event list \<Rightarrow> comm_point list" where
  "deleted_comm [] = []"
| "deleted_comm (Comm_point_delete (Some c) # evs) = c # deleted_comm evs"
| "deleted_comm (ev # evs) = deleted_comm evs"

text \<open>
  The shape of a port array while it is filled: the first \<open>n\<close> entries are comm points,
  every later entry is null, and there is at least one entry after them. \<open>somes\<close> lists
  the comm points of an array.
\<close>

definition filled_to :: "comm_point option list \<Rightarrow> nat \<Rightarrow> bool" where
  "filled_to coms n \<longleftrightarrow>
     n < length coms \<and> list_all (\<lambda>x. x \<noteq> None) (take n coms)
     \<and> list_all (\<lambda>x. x = None) (drop n coms)"

fun somes :: "comm_point option list \<Rightarrow> comm_point list" where
  "somes [] = []"
| "somes (Some c # coms) = c # somes coms"
| "somes (None # coms) = somes coms"

text \<open>
  The invariant of the loop over the interfaces, for the interfaces still to come: both
  arrays are filled up to their counters, each has room for the ports of the remaining
  interfaces of its family, and the comm points created so far are those in the arrays;
  none has been deleted.
\<close>

definition if_ports_inv ::
  "world \<Rightarrow> bool \<Rightarrow> bool \<Rightarrow> nat \<Rightarrow> string list \<Rightarrow>
     outside_network \<times> nat \<times> nat \<times> nat \<times> event list \<Rightarrow> bool" where
  "if_ports_inv w do_ip4 do_ip6 num_ports ifs st \<longleftrightarrow>
     (case st of (outnet, done_4, done_6, k, evs) \<Rightarrow>
        filled_to (udp4_ports outnet) done_4 \<and> filled_to (udp6_ports outnet) done_6
        \<and> done_4 + (if do_ip4 then num_ports * length (filter (\<lambda>x. \<not> str_is_ip6 w x) ifs) else 0)
             < length (udp4_ports outnet)
        \<and> done_6 + (if do_ip6 then num_ports * length (filter (str_is_ip6 w) ifs) else 0)
             < length (udp6_ports outnet)
        \<and> mset (created_comm evs)
             = mset (somes (udp4_ports outnet)) + mset (somes (udp6_ports outnet))
        \<and> deleted_comm evs = [])"

text \<open>What a submit leaves behind, read off its result.\<close>

fun query_events ::
  "fault + (outside_network \<times> byte list \<times> ub_randstate \<times> event list) \<Rightarrow> event list" where
  "query_events (Inr (outnet, packet, rnd, evs)) = evs"
| "query_events (Inl f) = []"

fun query_outnet ::
  "fault + (outside_network \<times> byte list \<times> ub_randstate \<times> event list) \<Rightarrow> outside_network option" where
  "query_outnet (Inr (outnet, packet, rnd, evs)) = Some outnet"
| "query_outnet (Inl f) = None"

section \<open>Invariants of the pending tree\<close>

text \<open>
  No two entries of the tree collide, and every entry is well formed. \<open>ids_collide\<close> says
  that each of the first \<open>n\<close> ids drawn from the random state collides with an entry of the
  tree, for a pending with the given address.
\<close>

fun uniq_keys :: "pending list \<Rightarrow> bool" where
  "uniq_keys [] \<longleftrightarrow> True"
| "uniq_keys (p # tree) \<longleftrightarrow> rbtree_search tree p = None \<and> uniq_keys tree"

definition tree_inv :: "pending list \<Rightarrow> bool" where
  "tree_inv tree \<longleftrightarrow> list_all wf_pending tree \<and> uniq_keys tree"

primrec ids_collide :: "pending list \<Rightarrow> pending \<Rightarrow> ub_randstate \<Rightarrow> nat \<Rightarrow> bool" where
  "ids_collide tree pend rnd 0 \<longleftrightarrow> True"
| "ids_collide tree pend rnd (Suc n) \<longleftrightarrow>
     ids_collide tree pend rnd n \<and> rbtree_insert tree (pend\<lparr>pend_id := gen_id (rnd n)\<rparr>) = None"

section \<open>Concrete inputs\<close>

text \<open>
  A \<open>struct sockaddr_in\<close> for 192.0.2.1, port 53, and one for 2001:db8::1, port 53, each
  in a zeroed address block; a pending towards the first with a given id, sent from comm
  point 7 and armed for 3 seconds.
\<close>

definition addr4_example :: "byte list" where
  "addr4_example = [2, 0, 0, 53, 192, 0, 2, 1] @ replicate 120 0"

definition addr6_example :: "byte list" where
  "addr6_example =
     [10, 0, 0, 53, 0, 0, 0, 0, 32, 1, 13, 184, 0, 0, 0, 0, 0, 0, 0, 0, 0, 0, 0, 1] @ replicate 104 0"

definition pend_example :: "16 word \<Rightarrow> pending" where
  "pend_example v =
     \<lparr>pend_id = v, pend_addr = addr4_example, pend_addrlen = 16, pend_c = Some 7,
      pend_timer = Some (3, 0), pend_cb = 1, pend_cb_arg = 2\<rparr>"

text \<open>
  A dispatcher with two IPv4 ports and no IPv6 port, one query in flight (id 5); a reply
  from 192.0.2.1 port 53; a 12-byte packet; an environment in which allocation succeeds,
  the index computation is exact and every send fails.
\<close>

definition outnet_example :: outside_network where
  "outnet_example =
     \<lparr>num_udp4 = 2, num_udp6 = 0, udp4_ports = [Some 7, Some 8, None], udp6_ports = [None],
      pending_tree = [pend_example 5]\<rparr>"

definition reply_example :: comm_reply where
  "reply_example = \<lparr>reply_addr = addr4_example, reply_addrlen = 16\<rparr>"

definition packet_example :: "byte list" where
  "packet_example = [0, 0, 1, 0, 0, 1, 0, 0, 0, 0, 0, 0]"

definition env_example :: env where
  "env_example =
     \<lparr>calloc_ok = True, comm_timer_create_ok = True,
      precho_int = (\<lambda>r nummax. r * nummax div 2147483648),
      comm_point_send_udp_msg = (\<lambda>c packet addr addrlen. False)\<rparr>"

text \<open>
  A random state that returns 1280 on every call (every id drawn from it is 5), and the
  environment above with a send that reports success.
\<close>

definition rnd_example :: ub_randstate where
  "rnd_example n = 1280"

definition env_send_ok :: env where
  "env_send_ok = env_example\<lparr>comm_point_send_udp_msg := (\<lambda>c packet addr addrlen. True)\<rparr>"

text \<open>
  A random state whose first draw gives the id 5 and every later draw the id 6.
\<close>

definition rnd_collide_once :: ub_randstate where
  "rnd_collide_once n = (if n = 0 then 1280 else 1536)"

text \<open>
  An environment in which the double-precision computation of \<open>select_port\<close> rounds up
  to \<open>nummax\<close>.
\<close>

definition env_round_up :: env where
  "env_round_up = env_example\<lparr>precho_int := (\<lambda>r nummax. nummax)\<rparr>"

text \<open>
  A world in which every allocation succeeds, an interface name is IPv6 when it holds a
  colon, the \<open>k\<close>-th attempt gives the descriptor \<open>k + 3\<close> and the comm point created on
  a descriptor has the number of the descriptor; and the same world with a second attempt
  whose socket cannot be created.
\<close>

definition world_example :: world where
  "world_example =
     \<lparr>have_INET6 = True, str_is_ip6 = (\<lambda>s. CHR '':'' \<in> set s),
      calloc_outnet_ok = True, ldns_buffer_new_ok = True, calloc_udp4_ports_ok = True,
      calloc_udp6_ports_ok = True, rbtree_create_ok = True,
      udp_sock = (\<lambda>k ifname port hints. Socket (int k + 3)),
      comm_point_create_udp = (\<lambda>k fd. Some (nat fd))\<rparr>"

definition world_short :: world where
  "world_short =
     world_example\<lparr>udp_sock :=
       (\<lambda>k ifname port hints. if k = 1 then Socket (- 1) else Socket (int k + 3))\<rparr>"

section \<open>The comparison function\<close>

lemma memcmp_less:
  "n \<le> length xs \<Longrightarrow> n \<le> length ys \<Longrightarrow> memcmp xs ys n < 0 \<longleftrightarrow> take n xs < take n ys"
proof (induction xs ys n rule: memcmp.induct)
  case (1 x xs y ys n)
  then show ?case
    by (auto simp: word_less_def)
qed auto

lemma memcmp_eq:
  "n \<le> length xs \<Longrightarrow> n \<le> length ys \<Longrightarrow> memcmp xs ys n = 0 \<longleftrightarrow> take n xs = take n ys"
proof (induction xs ys n rule: memcmp.induct)
  case (1 x xs y ys n)
  then show ?case
    by (auto simp: word_uint_eq_iff)
qed auto

lemma memcmp_greater:
  "n \<le> length xs \<Longrightarrow> n \<le> length ys \<Longrightarrow> memcmp xs ys n > 0 \<longleftrightarrow> take n ys < take n xs"
proof (induction xs ys n rule: memcmp.induct)
  case (1 x xs y ys n)
  then show ?case
    by (auto simp: word_less_def)
qed auto

lemma pending_cmp_refines:
  assumes "wf_pending p1" "wf_pending p2"
  shows "(pending_cmp p1 p2 < 0 \<longleftrightarrow> key_tuple p1 < key_tuple p2)
       \<and> (pending_cmp p1 p2 = 0 \<longleftrightarrow> key_tuple p1 = key_tuple p2)
       \<and> (pending_cmp p1 p2 > 0 \<longleftrightarrow> key_tuple p2 < key_tuple p1)"
proof -
  have len: "length (pend_addr p1) = 128" "length (pend_addr p2) = 128"
    "pend_addrlen p1 \<le> 128" "pend_addrlen p2 \<le> 128"
    using assms by (simp_all add: wf_pending_def SOCKADDR_STORAGE_SIZE_def)
  define t1 where "t1 = snd (snd (snd (key_tuple p1)))"
  define t2 where "t2 = snd (snd (snd (key_tuple p2)))"
  define f1 where "f1 = sin_family (pend_addr p1)"
  define f2 where "f2 = sin_family (pend_addr p2)"
  have k1: "key_tuple p1 = (pend_id p1, pend_addrlen p1, f1, t1)"
    and k2: "key_tuple p2 = (pend_id p2, pend_addrlen p2, f2, t2)"
    by (simp_all add: key_tuple_def t1_def t2_def f1_def f2_def)
  consider (idl) "pend_id p1 < pend_id p2" | (idg) "pend_id p2 < pend_id p1"
    | (ll) "pend_id p1 = pend_id p2" "pend_addrlen p1 < pend_addrlen p2"
    | (lg) "pend_id p1 = pend_id p2" "pend_addrlen p2 < pend_addrlen p1"
    | (fl) "pend_id p1 = pend_id p2" "pend_addrlen p1 = pend_addrlen p2" "f1 < f2"
    | (fg) "pend_id p1 = pend_id p2" "pend_addrlen p1 = pend_addrlen p2" "f2 < f1"
    | (eq) "pend_id p1 = pend_id p2" "pend_addrlen p1 = pend_addrlen p2" "f1 = f2"
    by (metis linorder_neqE)
  then show ?thesis
  proof cases
    case idl
    then show ?thesis by (auto simp add: pending_cmp_def k1 k2)
  next
    case idg
    then show ?thesis by (auto simp add: pending_cmp_def k1 k2)
  next
    case ll
    then show ?thesis by (auto simp add: pending_cmp_def k1 k2)
  next
    case lg
    then show ?thesis by (auto simp add: pending_cmp_def k1 k2)
  next
    case fl
    then show ?thesis by (auto simp add: pending_cmp_def k1 k2 f1_def[symmetric] f2_def[symmetric])
  next
    case fg
    then show ?thesis by (auto simp add: pending_cmp_def k1 k2 f1_def[symmetric] f2_def[symmetric])
  next
    case eq
    have fam: "sin_family (pend_addr p2) = sin_family (pend_addr p1)"
      using eq by (simp add: f1_def f2_def)
    define tail where "tail = (if f1 = AF_INET then
       (if sin_port (pend_addr p1) < sin_port (pend_addr p2) then -1
        else if sin_port (pend_addr p1) > sin_port (pend_addr p2) then 1
        else memcmp (sin_addr (pend_addr p1)) (sin_addr (pend_addr p2)) INET_SIZE)
     else if f1 = AF_INET6 then
       (if sin6_port (pend_addr p1) < sin6_port (pend_addr p2) then -1
        else if sin6_port (pend_addr p1) > sin6_port (pend_addr p2) then 1
        else memcmp (sin6_addr (pend_addr p1)) (sin6_addr (pend_addr p2)) INET6_SIZE)
     else memcmp (pend_addr p1) (pend_addr p2) (pend_addrlen p1))"
    have s6: "sin6_family (pend_addr p1) = f1"
      by (simp add: f1_def sin6_family_def sin_family_def)
    have cmp: "pending_cmp p1 p2 = tail"
      unfolding pending_cmp_def tail_def s6 f1_def[symmetric] f2_def[symmetric]
      using eq by simp
    have tl: "(tail < 0 \<longleftrightarrow> t1 < t2) \<and> (tail = 0 \<longleftrightarrow> t1 = t2) \<and> (tail > 0 \<longleftrightarrow> t2 < t1)"
    proof (cases "f1 = AF_INET")
      case True
      have a: "t1 = (sin_port (pend_addr p1), take INET_SIZE (sin_addr (pend_addr p1)))"
        and b: "t2 = (sin_port (pend_addr p2), take INET_SIZE (sin_addr (pend_addr p2)))"
        using True eq by (simp_all add: t1_def t2_def key_tuple_def f1_def f2_def)
      have l: "INET_SIZE \<le> length (sin_addr (pend_addr p1))" "INET_SIZE \<le> length (sin_addr (pend_addr p2))"
        using len by (simp_all add: sin_addr_def INET_SIZE_def)
      show ?thesis
        using True memcmp_less[OF l] memcmp_eq[OF l] memcmp_greater[OF l]
        by (auto simp: tail_def a b)
    next
      case False
      note nf = False
      show ?thesis
      proof (cases "f1 = AF_INET6")
        case True
        have a: "t1 = (sin6_port (pend_addr p1), take INET6_SIZE (sin6_addr (pend_addr p1)))"
          and b: "t2 = (sin6_port (pend_addr p2), take INET6_SIZE (sin6_addr (pend_addr p2)))"
          using True nf eq by (simp_all add: t1_def t2_def key_tuple_def f1_def f2_def)
        have l: "INET6_SIZE \<le> length (sin6_addr (pend_addr p1))" "INET6_SIZE \<le> length (sin6_addr (pend_addr p2))"
          using len by (simp_all add: sin6_addr_def INET6_SIZE_def)
        show ?thesis
          using True nf memcmp_less[OF l] memcmp_eq[OF l] memcmp_greater[OF l]
          by (auto simp: tail_def a b)
      next
        case False
        have a: "t1 = (0, take (pend_addrlen p1) (pend_addr p1))"
          and b: "t2 = (0, take (pend_addrlen p1) (pend_addr p2))"
          using False nf eq by (simp_all add: t1_def t2_def key_tuple_def f1_def f2_def)
        have l: "pend_addrlen p1 \<le> length (pend_addr p1)" "pend_addrlen p1 \<le> length (pend_addr p2)"
          using len by simp_all
        show ?thesis
          using False nf memcmp_less[OF l] memcmp_eq[OF l] memcmp_greater[OF l]
          by (auto simp: tail_def a b)
      qed
    qed
    show ?thesis
      using eq tl by (auto simp add: cmp k1 k2)
  qed
qed


section \<open>Lookups and removals in the pending tree\<close>

lemma pending_cmp_eq_iff:
  "wf_pending p \<Longrightarrow> wf_pending q \<Longrightarrow> pending_cmp p q = 0 \<longleftrightarrow> key_tuple p = key_tuple q"
  using pending_cmp_refines by blast

lemma pending_cmp_refl: "pending_cmp p p = 0"
proof -
  have "memcmp xs xs n = 0" for xs :: "byte list" and n
  proof (induction xs arbitrary: n)
    case Nil
    then show ?case by simp
  next
    case (Cons x xs)
    then show ?case by (cases n) simp_all
  qed
  then show ?thesis
    by (simp add: pending_cmp_def)
qed

lemma rbtree_search_None_iff:
  "rbtree_search tree key = None \<longleftrightarrow> (\<forall>p \<in> set tree. pending_cmp key p \<noteq> 0)"
  by (auto simp: rbtree_search_def find_None_iff)

lemma rbtree_search_SomeD:
  "rbtree_search tree key = Some p \<Longrightarrow> p \<in> set tree \<and> pending_cmp key p = 0"
  by (auto simp: rbtree_search_def find_Some_iff)

lemma rbtree_search_cong_key:
  assumes "list_all wf_pending tree" and "wf_pending k1" and "wf_pending k2"
    and "key_tuple k1 = key_tuple k2"
  shows "rbtree_search tree k1 = rbtree_search tree k2"
proof -
  have "pending_cmp k1 p = 0 \<longleftrightarrow> pending_cmp k2 p = 0" if "p \<in> set tree" for p
    using that assms by (simp add: pending_cmp_eq_iff list_all_iff)
  then show ?thesis
    unfolding rbtree_search_def by (metis (mono_tags, lifting) find_cong)
qed

lemma set_rbtree_delete: "set (rbtree_delete tree key) \<subseteq> set tree"
  by (induction tree) auto

lemma rbtree_delete_search_None:
  assumes "tree_inv tree" and "wf_pending key"
  shows "rbtree_search (rbtree_delete tree key) key = None"
  using assms(1)
proof (induction tree)
  case Nil
  then show ?case by (simp add: rbtree_search_def)
next
  case (Cons p tree)
  then have inv: "tree_inv tree" and wfp: "wf_pending p" and wft: "list_all wf_pending tree"
    and fresh: "rbtree_search tree p = None"
    by (simp_all add: tree_inv_def)
  show ?case
  proof (cases "pending_cmp key p = 0")
    case True
    then have "key_tuple key = key_tuple p"
      using assms(2) wfp by (simp add: pending_cmp_eq_iff)
    then have "rbtree_search tree key = rbtree_search tree p"
      using wft assms(2) wfp by (rule rbtree_search_cong_key [rotated 3])
    then show ?thesis
      using True fresh by simp
  next
    case False
    then show ?thesis
      using Cons.IH [OF inv] by (simp add: rbtree_search_def)
  qed
qed

lemma tree_inv_rbtree_delete:
  "tree_inv tree \<Longrightarrow> tree_inv (rbtree_delete tree key)"
proof (induction tree)
  case Nil
  then show ?case by simp
next
  case (Cons p tree)
  then have inv: "tree_inv tree" and wfp: "wf_pending p"
    and fresh: "rbtree_search tree p = None"
    by (simp_all add: tree_inv_def)
  have "rbtree_search (rbtree_delete tree key) p = None"
    using fresh set_rbtree_delete [of tree key] by (auto simp: rbtree_search_None_iff)
  then show ?case
    using Cons.IH [OF inv] inv wfp by (simp add: tree_inv_def)
qed

section \<open>The claims about the comparison function\<close>

text \<open>
  C7. \<open>pending_cmp\<close> orders two keys lexicographically by id, address length, family,
  port (the stored 16-bit value) and raw address bytes (4 for IPv4, 16 for IPv6; for any
  other family the first \<open>addrlen\<close> bytes of the address storage): its sign is that of the
  lexicographic comparison of the key tuples. It returns 0 exactly when the key tuples are
  equal, and it is a total order: swapping the arguments flips the sign, and it is
  transitive.
\<close>

theorem pending_cmp_total_order:
  assumes "wf_pending p1" and "wf_pending p2" and "wf_pending p3"
  shows "(pending_cmp p1 p2 < 0 \<longleftrightarrow> key_tuple p1 < key_tuple p2)
       \<and> (pending_cmp p1 p2 = 0 \<longleftrightarrow> key_tuple p1 = key_tuple p2)
       \<and> (pending_cmp p1 p2 > 0 \<longleftrightarrow> key_tuple p2 < key_tuple p1)
       \<and> sgn (pending_cmp p2 p1) = - sgn (pending_cmp p1 p2)
       \<and> (pending_cmp p1 p2 \<le> 0 \<and> pending_cmp p2 p3 \<le> 0 \<longrightarrow> pending_cmp p1 p3 \<le> 0)"
proof -
  note r12 = pending_cmp_refines [OF assms(1) assms(2)]
  note r21 = pending_cmp_refines [OF assms(2) assms(1)]
  note r23 = pending_cmp_refines [OF assms(2) assms(3)]
  note r13 = pending_cmp_refines [OF assms(1) assms(3)]
  have flip: "sgn (pending_cmp p2 p1) = - sgn (pending_cmp p1 p2)"
  proof -
    consider "key_tuple p1 < key_tuple p2" | "key_tuple p1 = key_tuple p2"
      | "key_tuple p2 < key_tuple p1"
      by (metis linorder_neqE)
    then show ?thesis
    proof cases
      case 1
      then have "pending_cmp p1 p2 < 0" and "pending_cmp p2 p1 > 0"
        using r12 r21 by simp_all
      then show ?thesis by simp
    next
      case 2
      then have "pending_cmp p1 p2 = 0" and "pending_cmp p2 p1 = 0"
        using r12 r21 by simp_all
      then show ?thesis by simp
    next
      case 3
      then have "pending_cmp p1 p2 > 0" and "pending_cmp p2 p1 < 0"
        using r12 r21 by simp_all
      then show ?thesis by simp
    qed
  qed
  have trans: "pending_cmp p1 p2 \<le> 0 \<and> pending_cmp p2 p3 \<le> 0 \<longrightarrow> pending_cmp p1 p3 \<le> 0"
  proof
    assume a: "pending_cmp p1 p2 \<le> 0 \<and> pending_cmp p2 p3 \<le> 0"
    have "key_tuple p1 \<le> key_tuple p2"
      using a r12 by (metis leD leI)
    moreover have "key_tuple p2 \<le> key_tuple p3"
      using a r23 by (metis leD leI)
    ultimately have "key_tuple p1 \<le> key_tuple p3"
      by (rule order_trans)
    then show "pending_cmp p1 p3 \<le> 0"
      using r13 by (metis leD leI)
  qed
  show ?thesis
    using r12 flip trans by blast
qed

theorem pending_cmp_total_order_witness:
  "wf_pending (pend_example 1) \<and> wf_pending (pend_example 2) \<and> wf_pending (pend_example 3)
   \<and> pending_cmp (pend_example 1) (pend_example 2) < 0
   \<and> key_tuple (pend_example 1) < key_tuple (pend_example 2)
   \<and> pending_cmp (pend_example 2) (pend_example 2) = 0
   \<and> sgn (pending_cmp (pend_example 2) (pend_example 1)) = 1
   \<and> pending_cmp (pend_example 1) (pend_example 3) \<le> 0"
proof -
  have h: "wf_pending (pend_example v)" for v
    by (simp add: wf_pending_def pend_example_def addr4_example_def SOCKADDR_STORAGE_SIZE_def)
  have c12: "pending_cmp (pend_example 1) (pend_example 2) = -1"
    by (simp add: pending_cmp_def pend_example_def)
  have c23: "pending_cmp (pend_example 2) (pend_example 3) = -1"
    by (simp add: pending_cmp_def pend_example_def)
  show ?thesis
    using h c12 c23 pending_cmp_total_order [OF h [of 1] h [of 2] h [of 3]]
      pending_cmp_total_order [OF h [of 2] h [of 2] h [of 3]]
    by simp
qed

section \<open>The reply and timeout handlers\<close>

text \<open>
  C10. A receive event with a nonzero error status makes the reply handler return right
  after the info log line: the dispatcher (tree, pendings, timers) is returned as it was,
  and the log line is the only event, so no callback is invoked and no lookup is made.
\<close>

theorem outnet_udp_cb_error_returns:
  assumes "error \<noteq> NETEVENT_NOERROR"
  shows "outnet_udp_cb key0 c buffer outnet error reply_info
           = Inr (outnet, [Log_info ''outnetudp got udp error %d''])"
  using assms by (simp add: outnet_udp_cb_def)

theorem outnet_udp_cb_error_returns_witness:
  "NETEVENT_CLOSED \<noteq> NETEVENT_NOERROR
   \<and> outnet_udp_cb (pend_example 0) 7 packet_example outnet_example NETEVENT_CLOSED None
       = Inr (outnet_example, [Log_info ''outnetudp got udp error %d''])"
proof -
  have h: "NETEVENT_CLOSED \<noteq> NETEVENT_NOERROR"
    by (simp add: NETEVENT_CLOSED_def NETEVENT_NOERROR_def)
  show ?thesis
    using h outnet_udp_cb_error_returns [OF h] by simp
qed

text \<open>
  C3. A datagram whose key finds a pending in the tree, received on a comm point other than
  the one chosen for that pending, is dropped: the handler returns the dispatcher as it was
  (the pending is still in the tree, its timer as it was) and the lookup is the only event,
  so the user callback is not invoked.
\<close>

theorem outnet_udp_cb_wrong_port:
  assumes "rbtree_search (pending_tree outnet) (reply_key key0 buffer ri) = Some p"
    and "pend_c p \<noteq> Some c"
  shows "outnet_udp_cb key0 c buffer outnet NETEVENT_NOERROR (Some ri)
           = Inr (outnet, [Rbtree_search (reply_key key0 buffer ri)])"
  using assms by (simp add: outnet_udp_cb_def)

theorem outnet_udp_cb_wrong_port_witness:
  "rbtree_search (pending_tree outnet_example)
       (reply_key (pend_example 0) [0, 5, 1, 0] reply_example) = Some (pend_example 5)
   \<and> pend_c (pend_example 5) \<noteq> Some 8
   \<and> pend_timer (pend_example 5) = Some (3, 0)
   \<and> outnet_udp_cb (pend_example 0) 8 [0, 5, 1, 0] outnet_example NETEVENT_NOERROR
         (Some reply_example)
       = Inr (outnet_example,
            [Rbtree_search (reply_key (pend_example 0) [0, 5, 1, 0] reply_example)])"
proof -
  have h1: "rbtree_search (pending_tree outnet_example)
       (reply_key (pend_example 0) [0, 5, 1, 0] reply_example) = Some (pend_example 5)"
    by code_simp
  have h2: "pend_c (pend_example 5) \<noteq> Some 8"
    by (simp add: pend_example_def)
  have h3: "pend_timer (pend_example 5) = Some (3, 0)"
    by (simp add: pend_example_def)
  show ?thesis
    using h1 h2 h3 outnet_udp_cb_wrong_port [OF h1 h2] by blast
qed

text \<open>
  C4. When the timeout of a pending in the tree fires, the timer handler invokes the user
  callback once, with the timeout status, and has removed the pending from the tree when
  it returns. A reply with that pending's key delivered afterwards misses in the tree and is
  dropped: the handler returns the dispatcher as it was, with the lookup as its only event.
  Over both handlers the user callback has been invoked once.
\<close>

theorem timeout_then_late_reply:
  assumes "tree_inv (pending_tree outnet)"
    and "p \<in> set (pending_tree outnet)"
    and "wf_pending (reply_key key0 buffer ri)"
    and "pending_cmp (reply_key key0 buffer ri) p = 0"
  shows "snd (pending_udp_timer_cb outnet p)
           = [Callback (pend_cb p) (pend_c p) (pend_cb_arg p) NETEVENT_TIMEOUT]
       \<and> rbtree_search (pending_tree (fst (pending_udp_timer_cb outnet p))) p = None
       \<and> rbtree_search (pending_tree (fst (pending_udp_timer_cb outnet p)))
            (reply_key key0 buffer ri) = None
       \<and> outnet_udp_cb key0 c buffer (fst (pending_udp_timer_cb outnet p)) NETEVENT_NOERROR
            (Some ri)
           = Inr (fst (pending_udp_timer_cb outnet p), [Rbtree_search (reply_key key0 buffer ri)])
       \<and> filter is_callback
            (snd (pending_udp_timer_cb outnet p) @ [Rbtree_search (reply_key key0 buffer ri)])
           = [Callback (pend_cb p) (pend_c p) (pend_cb_arg p) NETEVENT_TIMEOUT]"
proof -
  let ?key = "reply_key key0 buffer ri"
  let ?tree' = "rbtree_delete (pending_tree outnet) p"
  have wfp: "wf_pending p"
    using assms(1,2) by (simp add: tree_inv_def list_all_iff)
  have tree': "pending_tree (fst (pending_udp_timer_cb outnet p)) = ?tree'"
    by (simp add: pending_udp_timer_cb_def pending_delete_def)
  have gone: "rbtree_search ?tree' p = None"
    using assms(1) wfp by (rule rbtree_delete_search_None)
  have inv': "list_all wf_pending ?tree'"
    using tree_inv_rbtree_delete [OF assms(1)] by (simp add: tree_inv_def)
  have "key_tuple ?key = key_tuple p"
    using assms(3,4) wfp by (simp add: pending_cmp_eq_iff)
  then have "rbtree_search ?tree' ?key = rbtree_search ?tree' p"
    using inv' assms(3) wfp by (rule rbtree_search_cong_key [rotated 3])
  then have miss: "rbtree_search ?tree' ?key = None"
    using gone by simp
  have drop: "outnet_udp_cb key0 c buffer (fst (pending_udp_timer_cb outnet p))
      NETEVENT_NOERROR (Some ri) = Inr (fst (pending_udp_timer_cb outnet p), [Rbtree_search ?key])"
    using miss tree' by (simp add: outnet_udp_cb_def)
  have evs: "snd (pending_udp_timer_cb outnet p)
      = [Callback (pend_cb p) (pend_c p) (pend_cb_arg p) NETEVENT_TIMEOUT]"
    by (simp add: pending_udp_timer_cb_def)
  show ?thesis
    using evs gone miss drop tree' by simp
qed

theorem timeout_then_late_reply_witness:
  "tree_inv (pending_tree outnet_example)
   \<and> pend_example 5 \<in> set (pending_tree outnet_example)
   \<and> wf_pending (reply_key (pend_example 0) [0, 5, 1, 0] reply_example)
   \<and> pending_cmp (reply_key (pend_example 0) [0, 5, 1, 0] reply_example) (pend_example 5) = 0
   \<and> snd (pending_udp_timer_cb outnet_example (pend_example 5)) = [Callback 1 (Some 7) 2 NETEVENT_TIMEOUT]
   \<and> rbtree_search (pending_tree (fst (pending_udp_timer_cb outnet_example (pend_example 5))))
        (reply_key (pend_example 0) [0, 5, 1, 0] reply_example) = None
   \<and> outnet_udp_cb (pend_example 0) 7 [0, 5, 1, 0]
        (fst (pending_udp_timer_cb outnet_example (pend_example 5))) NETEVENT_NOERROR
        (Some reply_example)
       = Inr (fst (pending_udp_timer_cb outnet_example (pend_example 5)),
            [Rbtree_search (reply_key (pend_example 0) [0, 5, 1, 0] reply_example)])"
proof -
  have h1: "tree_inv (pending_tree outnet_example)"
    by code_simp
  have h2: "pend_example 5 \<in> set (pending_tree outnet_example)"
    by (simp add: outnet_example_def)
  have h3: "wf_pending (reply_key (pend_example 0) [0, 5, 1, 0] reply_example)"
    by code_simp
  have h4: "pending_cmp (reply_key (pend_example 0) [0, 5, 1, 0] reply_example) (pend_example 5) = 0"
    by code_simp
  have cb: "pend_cb (pend_example 5) = 1" "pend_c (pend_example 5) = Some 7"
    "pend_cb_arg (pend_example 5) = 2"
    by (simp_all add: pend_example_def)
  show ?thesis
    using h1 h2 h3 h4 timeout_then_late_reply [OF h1 h2 h3 h4, of 7] by (simp add: cb)
qed

section \<open>Submit: the insertion loop\<close>

lemma LDNS_ID_roundtrip:
  assumes "2 \<le> length wirebuf"
  shows "LDNS_ID_WIRE (LDNS_ID_SET wirebuf v) = v"
proof -
  have cat: "word_cat (ucast (drop_bit 8 v) :: byte) (ucast v :: byte) = v"
    by (rule bit_word_eqI) (auto simp: bit_simps)
  have "wirebuf \<noteq> []"
    using assms by auto
  moreover have "1 < length wirebuf"
    using assms by linarith
  ultimately show ?thesis
    using cat by (simp add: LDNS_ID_WIRE_def LDNS_ID_SET_def)
qed

lemma length_LDNS_ID_SET: "length (LDNS_ID_SET wirebuf v) = length wirebuf"
  by (simp add: LDNS_ID_SET_def)

lemma drop_LDNS_ID_SET: "drop 2 (LDNS_ID_SET wirebuf v) = drop 2 wirebuf"
  by (simp add: LDNS_ID_SET_def)

lemma gen_id_bits: "uint (gen_id r) = take_bit 16 (drop_bit 8 r)"
proof -
  have m: "(0xffff :: 32 word) = mask 16"
    by (simp add: mask_eq_exp_minus_1)
  show ?thesis
    unfolding gen_id_def m by (rule bit_eqI) (auto simp: bit_simps)
qed

lemma gen_id_arith: "uint (gen_id r) = r div 2 ^ 8 mod 2 ^ 16"
  by (simp add: gen_id_bits take_bit_eq_mod drop_bit_eq_div)

lemma pending_cmp_cong:
  assumes "pend_id p = pend_id p'" and "pend_addr p = pend_addr p'"
    and "pend_addrlen p = pend_addrlen p'"
  shows "pending_cmp p q = pending_cmp p' q" and "pending_cmp q p = pending_cmp q p'"
  using assms by (simp_all add: pending_cmp_def)

lemma new_pending_loop_Some:
  assumes "new_pending_loop tree pend packet rnd id_tries = (Some (pend', tree'), packet', rnd', evs)"
    and "2 \<le> length packet" and "LDNS_ID_WIRE packet = pend_id pend"
  shows "LDNS_ID_WIRE packet' = pend_id pend' \<and> tree' = pend' # tree
       \<and> rbtree_search tree pend' = None \<and> evs = []
       \<and> pend' = pend\<lparr>pend_id := pend_id pend'\<rparr>
       \<and> (pend_id pend' = pend_id pend \<or> (\<exists>k. pend_id pend' = gen_id (rnd k)))
       \<and> length packet' = length packet \<and> drop 2 packet' = drop 2 packet"
  using assms
proof (induction tree pend packet rnd id_tries rule: new_pending_loop.induct)
  case (1 tree pend packet rnd id_tries)
  show ?case
  proof (cases "rbtree_insert tree pend")
    case (Some t)
    then have "rbtree_search tree pend = None" and "t = pend # tree"
      by (auto simp: rbtree_insert_def split: option.splits)
    then show ?thesis
      using Some "1.prems" by (auto simp add: new_pending_loop.simps [of tree pend])
  next
    case None
    let ?v = "gen_id (fst (ub_random rnd))"
    have ne: "id_tries + 1 \<noteq> MAX_ID_RETRY_int"
      using None "1.prems"(1) by (auto simp: new_pending_loop.simps [of tree pend])
    have rec: "new_pending_loop tree (pend\<lparr>pend_id := ?v\<rparr>) (LDNS_ID_SET packet ?v)
        (snd (ub_random rnd)) (id_tries + 1) = (Some (pend', tree'), packet', rnd', evs)"
      using None ne "1.prems"(1) by (simp add: new_pending_loop.simps [of tree pend])
    have ih: "LDNS_ID_WIRE packet' = pend_id pend' \<and> tree' = pend' # tree
       \<and> rbtree_search tree pend' = None \<and> evs = []
       \<and> pend' = pend\<lparr>pend_id := ?v\<rparr>\<lparr>pend_id := pend_id pend'\<rparr>
       \<and> (pend_id pend' = pend_id (pend\<lparr>pend_id := ?v\<rparr>)
            \<or> (\<exists>k. pend_id pend' = gen_id (snd (ub_random rnd) k)))
       \<and> length packet' = length (LDNS_ID_SET packet ?v)
       \<and> drop 2 packet' = drop 2 (LDNS_ID_SET packet ?v)"
      using "1.IH" [OF None ne rec] "1.prems"(2)
      by (simp add: length_LDNS_ID_SET LDNS_ID_roundtrip)
    have "pend_id pend' = pend_id pend \<or> (\<exists>k. pend_id pend' = gen_id (rnd k))"
      using ih by (auto simp: ub_random_def)
    then show ?thesis
      using ih by (simp add: length_LDNS_ID_SET drop_LDNS_ID_SET)
  qed
qed

lemma new_pending_loop_exhausted:
  assumes "rbtree_insert tree pend = None"
    and "\<forall>j < unat (MAX_ID_RETRY_int - 1 - id_tries).
           rbtree_insert tree (pend\<lparr>pend_id := gen_id (rnd j)\<rparr>) = None"
  shows "\<exists>packet' rnd'. new_pending_loop tree pend packet rnd id_tries
           = (None, packet', rnd', [Log_err ''failed to generate unique ID, drop msg''])"
  using assms
proof (induction tree pend packet rnd id_tries rule: new_pending_loop.induct)
  case (1 tree pend packet rnd id_tries)
  let ?v = "gen_id (fst (ub_random rnd))"
  show ?case
  proof (cases "id_tries + 1 = MAX_ID_RETRY_int")
    case True
    then show ?thesis
      using "1.prems"(1) by (simp add: new_pending_loop.simps [of tree pend])
  next
    case False
    then have nz: "MAX_ID_RETRY_int - 1 - id_tries \<noteq> 0"
      by (auto simp: diff_eq_eq)
    then have pos: "0 < unat (MAX_ID_RETRY_int - 1 - id_tries)"
      by (simp add: unat_gt_0)
    have step: "unat (MAX_ID_RETRY_int - 1 - (id_tries + 1)) = unat (MAX_ID_RETRY_int - 1 - id_tries) - 1"
    proof -
      have eq: "MAX_ID_RETRY_int - 1 - (id_tries + 1) = MAX_ID_RETRY_int - 1 - id_tries - 1"
        by simp
      show ?thesis
        by (simp only: eq unat_minus_one [OF nz])
    qed
    have first: "rbtree_insert tree (pend\<lparr>pend_id := ?v\<rparr>) = None"
      using "1.prems"(2) pos by (simp add: ub_random_def)
    have rest: "\<forall>j < unat (MAX_ID_RETRY_int - 1 - (id_tries + 1)).
        rbtree_insert tree (pend\<lparr>pend_id := ?v\<rparr>\<lparr>pend_id := gen_id (snd (ub_random rnd) j)\<rparr>) = None"
    proof (intro allI impI)
      fix j
      assume "j < unat (MAX_ID_RETRY_int - 1 - (id_tries + 1))"
      then have "Suc j < unat (MAX_ID_RETRY_int - 1 - id_tries)"
        using step by simp
      then show "rbtree_insert tree (pend\<lparr>pend_id := ?v\<rparr>\<lparr>pend_id := gen_id (snd (ub_random rnd) j)\<rparr>) = None"
        using "1.prems"(2) by (simp add: ub_random_def)
    qed
    obtain packet' rnd' where "new_pending_loop tree (pend\<lparr>pend_id := ?v\<rparr>)
        (LDNS_ID_SET packet ?v) (snd (ub_random rnd)) (id_tries + 1)
         = (None, packet', rnd', [Log_err ''failed to generate unique ID, drop msg''])"
      using "1.IH" [OF "1.prems"(1) False first rest] by blast
    then show ?thesis
      using "1.prems"(1) False by (simp add: new_pending_loop.simps [of tree pend])
  qed
qed

lemma ids_collide_iff:
  "ids_collide tree pend rnd n \<longleftrightarrow>
     (\<forall>k < n. rbtree_insert tree (pend\<lparr>pend_id := gen_id (rnd k)\<rparr>) = None)"
  by (induction n) (auto simp: less_Suc_eq)

section \<open>Submit: allocation and port selection\<close>

lemma size_t_to_int_small: "n < 2 ^ 31 \<Longrightarrow> size_t_to_int n = int n"
proof -
  assume a: "n < 2 ^ 31"
  have u: "uint (word_of_nat n :: 32 word) = int n"
    using a by (simp add: unsigned_of_nat take_bit_nat_eq_self)
  have "sint (word_of_nat n :: 32 word) = signed_take_bit 31 (uint (word_of_nat n :: 32 word))"
    by (simp add: sint_uint)
  also have "\<dots> = int n"
    unfolding u using a by (simp add: signed_take_bit_int_eq_self)
  finally show ?thesis
    by (simp add: size_t_to_int_def)
qed

lemma new_pending_Some:
  assumes "new_pending e outnet packet addr addrlen cb cb_arg rnd
             = (Some pend, outnet1, packet1, rnd1, evs1)"
    and "2 \<le> length packet"
  shows "outnet1 = outnet\<lparr>pending_tree := pend # pending_tree outnet\<rparr> \<and> evs1 = []
       \<and> LDNS_ID_WIRE packet1 = pend_id pend
       \<and> pend = calloc_pending (pend_id pend) addr addrlen cb cb_arg
       \<and> (\<exists>k. pend_id pend = gen_id (rnd k))
       \<and> rbtree_search (pending_tree outnet) pend = None
       \<and> length packet1 = length packet \<and> drop 2 packet1 = drop 2 packet"
proof -
  let ?v = "gen_id (fst (ub_random rnd))"
  let ?p0 = "calloc_pending ?v addr addrlen cb cb_arg"
  obtain r pk rn ev where loop: "new_pending_loop (pending_tree outnet) ?p0
      (LDNS_ID_SET packet ?v) (snd (ub_random rnd)) 0 = (r, pk, rn, ev)"
    by (metis prod_cases4)
  have ok: "calloc_ok e" "comm_timer_create_ok e"
    using assms(1) by (auto simp: new_pending_def split: if_splits)
  obtain tree' where r: "r = Some (pend, tree')"
    and rest: "outnet1 = outnet\<lparr>pending_tree := tree'\<rparr>" "packet1 = pk" "rnd1 = rn" "evs1 = ev"
    using assms(1) ok loop by (auto simp: new_pending_def split: option.splits)
  have wire: "LDNS_ID_WIRE (LDNS_ID_SET packet ?v) = pend_id ?p0"
    using assms(2) by (simp add: LDNS_ID_roundtrip calloc_pending_def)
  have len: "2 \<le> length (LDNS_ID_SET packet ?v)"
    using assms(2) by (simp add: length_LDNS_ID_SET)
  note L = new_pending_loop_Some [OF loop [unfolded r] len wire]
  have shape: "pend = calloc_pending (pend_id pend) addr addrlen cb cb_arg"
    using L by (auto simp: calloc_pending_def)
  have prov: "\<exists>k. pend_id pend = gen_id (rnd k)"
    using L by (auto simp: calloc_pending_def ub_random_def)
  show ?thesis
    using L rest shape prov by (simp add: length_LDNS_ID_SET drop_LDNS_ID_SET)
qed

lemma new_pending_exhausted:
  assumes "calloc_ok e" and "comm_timer_create_ok e"
    and "ids_collide (pending_tree outnet) (calloc_pending v addr addrlen cb cb_arg) rnd MAX_ID_RETRY"
  shows "\<exists>packet' rnd'. new_pending e outnet packet addr addrlen cb cb_arg rnd
           = (None, outnet, packet', rnd', [Log_err ''failed to generate unique ID, drop msg''])"
proof -
  let ?v = "gen_id (fst (ub_random rnd))"
  let ?p0 = "calloc_pending ?v addr addrlen cb cb_arg"
  have upd: "calloc_pending v addr addrlen cb cb_arg\<lparr>pend_id := w\<rparr>
      = calloc_pending w addr addrlen cb cb_arg" for w
    by (simp add: calloc_pending_def)
  have all: "\<forall>k < 1000. rbtree_insert (pending_tree outnet)
      (calloc_pending (gen_id (rnd k)) addr addrlen cb cb_arg) = None"
    using assms(3) by (simp add: ids_collide_iff upd MAX_ID_RETRY_def)
  have n: "unat (MAX_ID_RETRY_int - 1 - 0) = 999"
    by (simp add: MAX_ID_RETRY_int_def MAX_ID_RETRY_def)
  have first: "rbtree_insert (pending_tree outnet) ?p0 = None"
    using all by (simp add: ub_random_def)
  have rest: "\<forall>j < unat (MAX_ID_RETRY_int - 1 - 0). rbtree_insert (pending_tree outnet)
      (?p0\<lparr>pend_id := gen_id (snd (ub_random rnd) j)\<rparr>) = None"
    unfolding n using all by (simp add: ub_random_def calloc_pending_def)
  obtain packet' rnd' where "new_pending_loop (pending_tree outnet) ?p0 (LDNS_ID_SET packet ?v)
      (snd (ub_random rnd)) 0 = (None, packet', rnd', [Log_err ''failed to generate unique ID, drop msg''])"
    using new_pending_loop_exhausted [OF first rest] by blast
  then show ?thesis
    using assms(1,2) by (simp add: new_pending_def)
qed

lemma select_port_shape:
  assumes "select_port e outnet pend rnd = Inr (pend2, rnd2, evs2)"
  shows "pend2 = pend\<lparr>pend_c := pend_c pend2\<rparr>"
  using assms
  by (auto simp: select_port_def Let_def split: if_splits option.splits)


lemma select_port_in_pool:
  assumes "N = (if addr_is_ip6 (pend_addr pend) then num_udp6 outnet else num_udp4 outnet)"
    and "ports = (if addr_is_ip6 (pend_addr pend) then udp6_ports outnet else udp4_ports outnet)"
    and "0 < N" and "N < 2 ^ 31" and "N \<le> length ports"
  shows "\<exists>i<N. select_port e outnet pend rnd =
           (case ports ! i of
              None \<Rightarrow> Inl Assertion_failed
            | Some cp \<Rightarrow> Inr (pend\<lparr>pend_c := Some cp\<rparr>, snd (ub_random rnd), []))"
proof -
  define nummax where "nummax = int N"
  define chosen0 where "chosen0 = precho_int e (fst (ub_random rnd)) nummax"
  define chosen1 where "chosen1 = (if chosen0 < 0 then 0 else chosen0)"
  define chosen where "chosen = (if chosen1 \<ge> nummax then nummax - 1 else chosen1)"
  have nm: "(if addr_is_ip6 (pend_addr pend) then size_t_to_int (num_udp6 outnet)
             else size_t_to_int (num_udp4 outnet)) = nummax"
    using assms(1,4) by (auto simp: nummax_def size_t_to_int_small)
  have pos: "0 < nummax"
    using assms(3) by (simp add: nummax_def)
  have range: "0 \<le> chosen" "chosen < nummax"
    using pos by (auto simp: chosen_def chosen1_def)
  then have i: "nat chosen < N" and inb: "\<not> (chosen < 0 \<or> int (length ports) \<le> chosen)"
    using assms(5) by (auto simp: nummax_def)
  have "select_port e outnet pend rnd =
      (if chosen < 0 \<or> int (length ports) \<le> chosen then Inl Out_of_bounds
       else case ports ! nat chosen of
              None \<Rightarrow> Inl Assertion_failed
            | Some cp \<Rightarrow> Inr (pend\<lparr>pend_c := Some cp\<rparr>, snd (ub_random rnd), []))"
    unfolding select_port_def nm Let_def chosen_def chosen1_def chosen0_def assms(2)
    using pos by simp
  then have "select_port e outnet pend rnd =
      (case ports ! nat chosen of
         None \<Rightarrow> Inl Assertion_failed
       | Some cp \<Rightarrow> Inr (pend\<lparr>pend_c := Some cp\<rparr>, snd (ub_random rnd), []))"
    using inb by simp
  then show ?thesis
    using i by blast
qed

lemma select_port_no_ports:
  assumes "(if addr_is_ip6 (pend_addr pend) then num_udp6 outnet else num_udp4 outnet) = 0"
  shows "select_port e outnet pend rnd
           = Inr (pend, rnd, [Log_err ''Need to send query but have no ports of that family''])"
proof -
  have "size_t_to_int 0 = 0"
    by (simp add: size_t_to_int_def)
  then show ?thesis
    using assms by (auto simp: select_port_def split: if_splits)
qed

lemma tree_update_head:
  assumes "rbtree_search tree p = None"
    and "pend_id p' = pend_id p" and "pend_addr p' = pend_addr p"
    and "pend_addrlen p' = pend_addrlen p"
  shows "tree_update (p # tree) p' = p' # tree"
proof -
  have "pending_cmp p' q = pending_cmp p q" for q
    using assms(2-4) by (rule pending_cmp_cong)
  then have "pending_cmp p' p = 0" and "\<forall>q \<in> set tree. pending_cmp p' q \<noteq> 0"
    using assms(1) by (simp_all add: pending_cmp_refl rbtree_search_None_iff)
  then show ?thesis
    by (simp add: tree_update_def map_idI)
qed

lemma rbtree_delete_head:
  "pending_cmp key p = 0 \<Longrightarrow> rbtree_delete (p # tree) key = tree"
  by simp

section \<open>Submit: the whole operation\<close>

lemma pending_udp_query_exhausted:
  assumes "calloc_ok e" and "comm_timer_create_ok e"
    and "ids_collide (pending_tree outnet) (calloc_pending 0 addr addrlen cb cb_arg) rnd MAX_ID_RETRY"
  shows "\<exists>packet' rnd'. pending_udp_query e outnet packet addr addrlen timeout cb cb_arg rnd
           = Inr (outnet, packet', rnd',
               [Log_err ''failed to generate unique ID, drop msg'',
                Callback cb None cb_arg NETEVENT_CLOSED])"
proof -
  obtain packet' rnd' where "new_pending e outnet packet addr addrlen cb cb_arg rnd
      = (None, outnet, packet', rnd', [Log_err ''failed to generate unique ID, drop msg''])"
    using new_pending_exhausted [OF assms] by blast
  then show ?thesis
    by (simp add: pending_udp_query_def)
qed

lemma pending_udp_query_sent:
  assumes res: "pending_udp_query e outnet packet addr addrlen timeout cb cb_arg rnd
             = Inr (outnet', packet', rnd', evs)"
    and len: "2 \<le> length packet"
    and last: "evs \<noteq> []" "last evs = Send_udp_msg c pkt a l"
  shows "\<exists>p k. pending_tree outnet' = p # pending_tree outnet
       \<and> pkt = packet' \<and> LDNS_ID_WIRE pkt = pend_id p
       \<and> rbtree_search (pending_tree outnet') p = Some p
       \<and> pend_id p = gen_id (rnd k)
       \<and> pend_c p = c \<and> pend_timer p = Some (timeout, 0)
       \<and> pend_addr p = memcpy (replicate SOCKADDR_STORAGE_SIZE 0) addr addrlen
       \<and> pend_addrlen p = addrlen \<and> pend_cb p = cb \<and> pend_cb_arg p = cb_arg
       \<and> drop 2 packet' = drop 2 packet"
proof -
  obtain r outnet1 packet1 rnd1 evs1 where np:
    "new_pending e outnet packet addr addrlen cb cb_arg rnd = (r, outnet1, packet1, rnd1, evs1)"
    by (metis prod_cases5)
  have "r \<noteq> None"
  proof
    assume "r = None"
    then have "evs = evs1 @ [Callback cb None cb_arg NETEVENT_CLOSED]"
      using res np by (simp add: pending_udp_query_def)
    then show False
      using last by simp
  qed
  then obtain pend where r: "r = Some pend"
    by blast
  note N = new_pending_Some [OF np [unfolded r] len]
  obtain pend2 rnd2 evs2 where sp: "select_port e outnet1 pend rnd1 = Inr (pend2, rnd2, evs2)"
    using res np r by (auto simp: pending_udp_query_def split: sum.splits)
  have p2: "pend2 = pend\<lparr>pend_c := pend_c pend2\<rparr>"
    using sp by (rule select_port_shape)
  have sent: "comm_point_send_udp_msg e (pend_c pend2) packet1 addr addrlen"
  proof (rule ccontr)
    assume "\<not> comm_point_send_udp_msg e (pend_c pend2) packet1 addr addrlen"
    then have "\<exists>xs x. evs = xs @ [Callback (pend_cb pend2) (pend_c pend2) (pend_cb_arg pend2) NETEVENT_CLOSED]"
      using res np r sp by (auto simp: pending_udp_query_def Let_def)
    then show False
      using last by auto
  qed
  let ?p3 = "pend2\<lparr>pend_timer := Some (timeout, 0)\<rparr>"
  let ?tree = "pending_tree outnet"
  have fresh: "rbtree_search ?tree pend = None"
    using N by simp
  have t1: "pending_tree outnet1 = pend # ?tree"
    using N by simp
  have u1: "tree_update (pend # ?tree) pend2 = pend2 # ?tree"
    using fresh by (rule tree_update_head) (subst p2, simp)+
  have fresh2: "rbtree_search ?tree pend2 = None"
  proof -
    have "pending_cmp pend2 q = pending_cmp pend q" for q
      by (rule pending_cmp_cong) (subst p2, simp)+
    then show ?thesis
      using fresh by (simp add: rbtree_search_None_iff)
  qed
  have u2: "tree_update (pend2 # ?tree) ?p3 = ?p3 # ?tree"
    using fresh2 by (rule tree_update_head) simp_all
  have out: "outnet' = outnet1\<lparr>pending_tree := ?p3 # ?tree\<rparr>" "packet' = packet1"
    "evs = evs1 @ evs2 @ [Send_udp_msg (pend_c pend2) packet1 addr addrlen]"
    using res np r sp sent by (auto simp add: pending_udp_query_def Let_def t1 u1 u2)
  have ev: "c = pend_c pend2" "pkt = packet1"
    using last out(3) by simp_all
  have found: "rbtree_search (?p3 # ?tree) ?p3 = Some ?p3"
    by (simp add: rbtree_search_def pending_cmp_refl)
  obtain k where k: "pend_id pend = gen_id (rnd k)"
    using N by blast
  have fields: "pend_id ?p3 = pend_id pend" "pend_addr ?p3 = pend_addr pend"
    "pend_addrlen ?p3 = pend_addrlen pend" "pend_cb ?p3 = pend_cb pend"
    "pend_cb_arg ?p3 = pend_cb_arg pend"
    by (subst p2, simp)+
  have cp: "pend_addr pend = memcpy (replicate SOCKADDR_STORAGE_SIZE 0) addr addrlen"
    "pend_addrlen pend = addrlen" "pend_cb pend = cb" "pend_cb_arg pend = cb_arg"
    using N by (metis calloc_pending_def pending.select_convs)+
  have "pending_tree outnet' = ?p3 # pending_tree outnet
       \<and> pkt = packet' \<and> LDNS_ID_WIRE pkt = pend_id ?p3
       \<and> rbtree_search (pending_tree outnet') ?p3 = Some ?p3
       \<and> pend_id ?p3 = gen_id (rnd k)
       \<and> pend_c ?p3 = c \<and> pend_timer ?p3 = Some (timeout, 0)
       \<and> pend_addr ?p3 = memcpy (replicate SOCKADDR_STORAGE_SIZE 0) addr addrlen
       \<and> pend_addrlen ?p3 = addrlen \<and> pend_cb ?p3 = cb \<and> pend_cb_arg ?p3 = cb_arg
       \<and> drop 2 packet' = drop 2 packet"
    using out ev found k N fields cp by simp
  then show ?thesis
    by blast
qed

section \<open>The claims about submit\<close>

text \<open>
  C5. When a submit ends with the send (so the query is registered and no closed callback
  was made), the packet handed to the send is the patched packet, its first two bytes read
  back as the id of the new pending, the tree finds that pending under its own key, and the
  id is \<open>gen_id\<close> of one of the words drawn from the random state, that is the word
  shifted right by 8 bits and cut to 16 bits, whatever the number of collisions before.
\<close>

theorem submit_id_patch_roundtrip:
  assumes "pending_udp_query e outnet packet addr addrlen timeout cb cb_arg rnd
             = Inr (outnet', packet', rnd', evs)"
    and "2 \<le> length packet"
    and "evs \<noteq> []" and "last evs = Send_udp_msg c pkt a l"
  shows "\<exists>p k. pending_tree outnet' = p # pending_tree outnet
       \<and> pkt = packet' \<and> LDNS_ID_WIRE pkt = pend_id p
       \<and> rbtree_search (pending_tree outnet') p = Some p
       \<and> pend_id p = gen_id (rnd k)
       \<and> uint (pend_id p) = rnd k div 2 ^ 8 mod 2 ^ 16"
proof -
  obtain p k where "pending_tree outnet' = p # pending_tree outnet
       \<and> pkt = packet' \<and> LDNS_ID_WIRE pkt = pend_id p
       \<and> rbtree_search (pending_tree outnet') p = Some p
       \<and> pend_id p = gen_id (rnd k)"
    using pending_udp_query_sent [OF assms] by blast
  then show ?thesis
    using gen_id_arith [of "rnd k"] by auto
qed

theorem submit_id_patch_roundtrip_witness:
  "\<exists>outnet' packet' rnd'.
     pending_udp_query env_send_ok outnet_example packet_example addr4_example 16 3 1 2
         rnd_collide_once
       = Inr (outnet', packet', rnd',
           [Send_udp_msg (Some 7) (LDNS_ID_SET packet_example 6) addr4_example 16])
     \<and> 2 \<le> length packet_example
     \<and> (\<exists>p k. pending_tree outnet' = p # pending_tree outnet_example
          \<and> LDNS_ID_SET packet_example 6 = packet'
          \<and> LDNS_ID_WIRE (LDNS_ID_SET packet_example 6) = pend_id p
          \<and> rbtree_search (pending_tree outnet') p = Some p
          \<and> pend_id p = gen_id (rnd_collide_once k)
          \<and> uint (pend_id p) = rnd_collide_once k div 2 ^ 8 mod 2 ^ 16)"
proof -
  let ?Q = "pending_udp_query env_send_ok outnet_example packet_example addr4_example 16 3 1 2
      rnd_collide_once"
  have ev: "query_events ?Q = [Send_udp_msg (Some 7) (LDNS_ID_SET packet_example 6) addr4_example 16]"
    by code_simp
  obtain outnet' packet' rnd' where
    res: "?Q = Inr (outnet', packet', rnd',
        [Send_udp_msg (Some 7) (LDNS_ID_SET packet_example 6) addr4_example 16])"
    using ev by (cases ?Q rule: query_events.cases) simp_all
  have len: "2 \<le> length packet_example"
    by (simp add: packet_example_def)
  show ?thesis
    using res len submit_id_patch_roundtrip [OF res len] by simp
qed

text \<open>
  C2, as the code has it. When the first 1000 ids drawn all collide with entries of the
  tree, submit gives up: the error is logged, the pending is released and the tree is left
  as it was, and the user callback is invoked once, with the closed status and a null comm
  point. (The claim says the callback is not invoked; \<open>new_pending\<close> indeed does not
  invoke it, but \<open>pending_udp_query\<close> does when \<open>new_pending\<close> returns null.)
\<close>

theorem pending_udp_query_ids_exhausted_counterexample:
  "ids_collide (pending_tree outnet_example) (calloc_pending 0 addr4_example 16 1 2)
       rnd_example MAX_ID_RETRY
   \<and> query_events (pending_udp_query env_example outnet_example packet_example addr4_example
         16 3 1 2 rnd_example)
       = [Log_err ''failed to generate unique ID, drop msg'',
          Callback 1 None 2 NETEVENT_CLOSED]"
proof -
  have one: "rbtree_insert (pending_tree outnet_example)
      (calloc_pending 0 addr4_example 16 1 2\<lparr>pend_id := gen_id 1280\<rparr>) = None"
    by code_simp
  have c: "ids_collide (pending_tree outnet_example) (calloc_pending 0 addr4_example 16 1 2)
       rnd_example MAX_ID_RETRY"
    unfolding ids_collide_iff rnd_example_def using one by blast
  have e: "calloc_ok env_example" "comm_timer_create_ok env_example"
    by (simp_all add: env_example_def)
  obtain packet' rnd' where "pending_udp_query env_example outnet_example packet_example
      addr4_example 16 3 1 2 rnd_example
       = Inr (outnet_example, packet', rnd',
           [Log_err ''failed to generate unique ID, drop msg'',
            Callback 1 None 2 NETEVENT_CLOSED])"
    using pending_udp_query_exhausted [OF e c] by blast
  then show ?thesis
    using c by simp
qed

theorem pending_udp_query_ids_exhausted:
  assumes "calloc_ok e" and "comm_timer_create_ok e"
    and "ids_collide (pending_tree outnet) (calloc_pending 0 addr addrlen cb cb_arg) rnd MAX_ID_RETRY"
  shows "\<exists>packet' rnd'. pending_udp_query e outnet packet addr addrlen timeout cb cb_arg rnd
           = Inr (outnet, packet', rnd',
               [Log_err ''failed to generate unique ID, drop msg'',
                Callback cb None cb_arg NETEVENT_CLOSED])"
  using assms by (rule pending_udp_query_exhausted)

theorem pending_udp_query_ids_exhausted_witness:
  "calloc_ok env_send_ok \<and> comm_timer_create_ok env_send_ok
   \<and> ids_collide (pending_tree outnet_example) (calloc_pending 0 addr4_example 16 4 9)
        rnd_example MAX_ID_RETRY
   \<and> (\<exists>packet' rnd'. pending_udp_query env_send_ok outnet_example packet_example addr4_example
          16 3 4 9 rnd_example
        = Inr (outnet_example, packet', rnd',
            [Log_err ''failed to generate unique ID, drop msg'',
             Callback 4 None 9 NETEVENT_CLOSED]))"
proof -
  have one: "rbtree_insert (pending_tree outnet_example)
      (calloc_pending 0 addr4_example 16 4 9\<lparr>pend_id := gen_id 1280\<rparr>) = None"
    by code_simp
  have c: "ids_collide (pending_tree outnet_example) (calloc_pending 0 addr4_example 16 4 9)
       rnd_example MAX_ID_RETRY"
    unfolding ids_collide_iff rnd_example_def using one by blast
  have e: "calloc_ok env_send_ok" "comm_timer_create_ok env_send_ok"
    by (simp_all add: env_send_ok_def env_example_def)
  show ?thesis
    using e c pending_udp_query_ids_exhausted [OF e c] by blast
qed

text \<open>
  C1, what the code does. A submit to an IPv6 destination on a dispatcher with no IPv6
  port: \<open>select_port\<close> logs and returns, the comm point of the pending is still null, and
  \<open>pending_udp_query\<close> goes on to \<open>comm_point_send_udp_msg\<close> with that null comm point.
  If the send reports failure the user callback is invoked with the closed status; if it
  reports success the pending stays in the tree with its timer armed and no comm point.
\<close>

theorem pending_udp_query_no_ports_sends:
  "query_events (pending_udp_query env_example outnet_example packet_example addr6_example 28
       3 1 2 rnd_example)
     = [Log_err ''Need to send query but have no ports of that family'',
        Send_udp_msg None (LDNS_ID_SET packet_example 5) addr6_example 28,
        Callback 1 None 2 NETEVENT_CLOSED]
   \<and> query_events (pending_udp_query env_send_ok outnet_example packet_example addr6_example 28
       3 1 2 rnd_example)
     = [Log_err ''Need to send query but have no ports of that family'',
        Send_udp_msg None (LDNS_ID_SET packet_example 5) addr6_example 28]
   \<and> map_option pending_tree (query_outnet (pending_udp_query env_send_ok outnet_example
       packet_example addr6_example 28 3 1 2 rnd_example))
     = Some [calloc_pending 5 addr6_example 28 1 2\<lparr>pend_timer := Some (3, 0)\<rparr>,
             pend_example 5]"
  by code_simp

text \<open>
  C8. With a family list of \<open>N\<close> ports, \<open>0 < N\<close> (and \<open>N\<close> within the range of the
  \<open>int\<close> it is cast to), the index used by \<open>select_port\<close> is below \<open>N\<close> whatever the
  double-precision computation returns: the comm point of the pending is the entry of the
  family's array at some \<open>i < N\<close> (the assertion fails if that entry is null), and the
  read is never outside the array.
\<close>

theorem select_port_index_clamped:
  assumes "N = (if addr_is_ip6 (pend_addr pend) then num_udp6 outnet else num_udp4 outnet)"
    and "ports = (if addr_is_ip6 (pend_addr pend) then udp6_ports outnet else udp4_ports outnet)"
    and "0 < N" and "N < 2 ^ 31" and "N \<le> length ports"
  shows "\<exists>i<N. select_port e outnet pend rnd =
           (case ports ! i of
              None \<Rightarrow> Inl Assertion_failed
            | Some cp \<Rightarrow> Inr (pend\<lparr>pend_c := Some cp\<rparr>, snd (ub_random rnd), []))"
  using assms by (rule select_port_in_pool)

theorem select_port_index_clamped_witness:
  "2 = (if addr_is_ip6 (pend_addr (calloc_pending 5 addr4_example 16 1 2))
        then num_udp6 outnet_example else num_udp4 outnet_example)
   \<and> [Some 7, Some 8, None]
        = (if addr_is_ip6 (pend_addr (calloc_pending 5 addr4_example 16 1 2))
           then udp6_ports outnet_example else udp4_ports outnet_example)
   \<and> (0 :: nat) < 2 \<and> (2 :: nat) < 2 ^ 31 \<and> 2 \<le> length [Some (7 :: nat), Some 8, None]
   \<and> (\<exists>i<2. select_port env_round_up outnet_example (calloc_pending 5 addr4_example 16 1 2)
          rnd_example =
        (case [Some 7, Some 8, None] ! i of
           None \<Rightarrow> Inl Assertion_failed
         | Some cp \<Rightarrow>
             Inr (calloc_pending 5 addr4_example 16 1 2\<lparr>pend_c := Some cp\<rparr>,
                  snd (ub_random rnd_example), [])))"
proof -
  have h1: "2 = (if addr_is_ip6 (pend_addr (calloc_pending 5 addr4_example 16 1 2))
        then num_udp6 outnet_example else num_udp4 outnet_example)"
    by code_simp
  have h2: "[Some 7, Some 8, None]
        = (if addr_is_ip6 (pend_addr (calloc_pending 5 addr4_example 16 1 2))
           then udp6_ports outnet_example else udp4_ports outnet_example)"
    by code_simp
  have h3: "(0 :: nat) < 2" and h4: "(2 :: nat) < 2 ^ 31"
    and h5: "2 \<le> length [Some (7 :: nat), Some 8, None]"
    by simp_all
  show ?thesis
    using h1 h2 h3 h4 h5
      select_port_index_clamped [OF h1 h2 h3 h4 h5, of env_round_up rnd_example]
    by blast
qed

section \<open>Port arrays\<close>

lemma somes_append: "somes (xs @ ys) = somes xs @ somes ys"
  by (induction xs rule: somes.induct) auto

lemma somes_all_None: "list_all (\<lambda>x. x = None) xs \<Longrightarrow> somes xs = []"
  by (induction xs rule: somes.induct) auto

lemma created_comm_append: "created_comm (xs @ ys) = created_comm xs @ created_comm ys"
  by (induction xs rule: created_comm.induct) auto

lemma deleted_comm_append: "deleted_comm (xs @ ys) = deleted_comm xs @ deleted_comm ys"
  by (induction xs rule: deleted_comm.induct) auto

lemma deleted_comm_map: "deleted_comm (map Comm_point_delete xs) = somes xs"
  by (induction xs rule: somes.induct) auto

lemma map_nth_upt: "n \<le> length xs \<Longrightarrow> map (\<lambda>i. f (xs ! i)) [0..<n] = map f (take n xs)"
  by (rule nth_equalityI) simp_all

lemma filled_to_nth: "filled_to coms n \<Longrightarrow> i < n \<Longrightarrow> i < length coms \<and> coms ! i \<noteq> None"
  by (auto simp: filled_to_def list_all_length)

lemma filled_to_next_None:
  assumes "filled_to coms n"
  shows "coms ! n = None"
proof -
  have "n < length coms" and all: "list_all (\<lambda>x. x = None) (drop n coms)"
    using assms by (simp_all add: filled_to_def)
  then have "coms ! n \<in> set (drop n coms)"
    by (metis Cons_nth_drop_Suc list.set_intros(1))
  then show ?thesis
    using all by (simp add: list_all_iff)
qed

lemma filled_to_replicate: "filled_to (replicate (n + 1) None) 0"
  by (simp add: filled_to_def list_all_iff)

lemma filled_to_somes_take:
  assumes "filled_to coms n" and "n \<le> m"
  shows "somes (take m coms) = somes coms"
proof -
  have "list_all (\<lambda>x. x = None) (drop n coms)"
    using assms(1) by (simp add: filled_to_def)
  then have a: "somes (drop n coms) = []" and "list_all (\<lambda>x. x = None) (take (m - n) (drop n coms))"
    by (auto simp: somes_all_None list_all_iff dest: in_set_takeD)
  then have b: "somes (take (m - n) (drop n coms)) = []"
    by (simp add: somes_all_None)
  have "take m coms = take n coms @ take (m - n) (drop n coms)"
    using assms(2) by (metis le_add_diff_inverse take_add)
  then have "somes (take m coms) = somes (take n coms)"
    using b by (simp add: somes_append)
  moreover have "somes coms = somes (take n coms) @ somes (drop n coms)"
    by (metis append_take_drop_id somes_append)
  ultimately show ?thesis
    using a by simp
qed

lemma filled_to_update_None:
  "filled_to coms n \<Longrightarrow> coms[n := None] = coms"
  by (metis filled_to_next_None list_update_id)

lemma filled_to_update_Some:
  assumes "filled_to coms n" and "Suc n < length coms"
  shows "filled_to (coms[n := Some c]) (Suc n)"
    and "mset (somes (coms[n := Some c])) = add_mset c (mset (somes coms))"
proof -
  have n: "n < length coms"
    using assms(2) by simp
  have split: "coms = take n coms @ None # drop (Suc n) coms"
    using filled_to_next_None [OF assms(1)] n by (metis id_take_nth_drop)
  have upd: "coms[n := Some c] = take n coms @ Some c # drop (Suc n) coms"
    using n by (simp add: upd_conv_take_nth_drop)
  have pre: "list_all (\<lambda>x. x \<noteq> None) (take n coms)"
    and post: "list_all (\<lambda>x. x = None) (drop n coms)"
    using assms(1) by (simp_all add: filled_to_def)
  have post': "list_all (\<lambda>x. x = None) (drop (Suc n) coms)"
    using post by (metis drop_drop list_all_iff in_set_dropD plus_1_eq_Suc)
  have "take (Suc n) (coms[n := Some c]) = take n coms @ [Some c]"
    using n by (simp add: upd take_Suc_conv_app_nth nth_append)
  moreover have "drop (Suc n) (coms[n := Some c]) = drop (Suc n) coms"
    by simp
  ultimately show "filled_to (coms[n := Some c]) (Suc n)"
    using pre post' assms(2) by (simp add: filled_to_def)
  have "somes coms = somes (take n coms) @ somes (drop (Suc n) coms)"
    by (subst split) (simp add: somes_append)
  moreover have "somes (coms[n := Some c]) = somes (take n coms) @ c # somes (drop (Suc n) coms)"
    by (simp add: upd somes_append)
  ultimately show "mset (somes (coms[n := Some c])) = add_mset c (mset (somes coms))"
    by simp
qed

section \<open>The loop of make\_udp\_range\<close>

lemma open_udp_port_range_events:
  "created_comm (snd (open_udp_port_range w k ifname hints porthint)) = []"
  "deleted_comm (snd (open_udp_port_range w k ifname hints porthint)) = []"
  by (simp_all add: open_udp_port_range_def split: sock_result.splits)

lemma created_comm_create:
  "created_comm [Comm_point_create_udp fd cp] = somes [cp]"
  by (cases cp) simp_all

lemma make_udp_range_loop_inv:
  assumes "make_udp_range_loop w ifname hints num_ports i coms off ndone porthint k evs
             = (n', coms', k', evs')"
    and "filled_to coms (off + ndone)"
    and "off + ndone + (num_ports - i) < length coms"
  shows "filled_to coms' (off + n') \<and> ndone \<le> n' \<and> n' \<le> ndone + (num_ports - i)
       \<and> length coms' = length coms
       \<and> mset (created_comm evs') + mset (somes coms) = mset (created_comm evs) + mset (somes coms')
       \<and> deleted_comm evs' = deleted_comm evs"
  using assms
proof (induction w ifname hints num_ports i coms off ndone porthint k evs
       rule: make_udp_range_loop.induct)
  case (1 w ifname hints num_ports i coms off ndone porthint k evs)
  let ?fd = "fst (open_udp_port_range w k ifname hints porthint)"
  let ?oev = "snd (open_udp_port_range w k ifname hints porthint)"
  let ?cp = "comm_point_create_udp w k ?fd"
  let ?ph = "if porthint \<noteq> -1 then porthint + 1 else porthint"
  show ?case
  proof (cases "i < num_ports")
    case False
    then have "n' = ndone" "coms' = coms" "evs' = evs"
      using "1.prems"(1) by (simp_all add: make_udp_range_loop.simps [of w ifname hints num_ports i])
    then show ?thesis
      using "1.prems"(2) by simp
  next
    case lt: True
    show ?thesis
    proof (cases "?fd = -1")
      case True
      have rec: "make_udp_range_loop w ifname hints num_ports (i + 1) coms off ndone ?ph (k + 1)
          (evs @ ?oev) = (n', coms', k', evs')"
        using "1.prems"(1) lt True
        by (simp add: make_udp_range_loop.simps [of w ifname hints num_ports i])
      have room: "off + ndone + (num_ports - (i + 1)) < length coms"
        using "1.prems"(3) by simp
      note IH = "1.IH"(1) [OF lt True rec "1.prems"(2) room]
      have c1: "filled_to coms' (off + n')" and c2: "ndone \<le> n'"
        and c4: "length coms' = length coms"
        using IH by simp_all
      have c3: "n' \<le> ndone + (num_ports - i)"
        using IH by linarith
      have c5: "mset (created_comm evs') + mset (somes coms)
          = mset (created_comm evs) + mset (somes coms')"
        using IH by (simp add: created_comm_append open_udp_port_range_events)
      have c6: "deleted_comm evs' = deleted_comm evs"
        using IH by (simp add: deleted_comm_append open_udp_port_range_events)
      show ?thesis
        using c1 c2 c3 c4 c5 c6 by blast
    next
      case fd: False
      have rec': "make_udp_range_loop w ifname hints num_ports (i + 1) (coms[off + ndone := ?cp])
          off (if ?cp \<noteq> None then ndone + 1 else ndone) ?ph (k + 1)
          (evs @ ?oev @ [Comm_point_create_udp ?fd ?cp]) = (n', coms', k', evs')"
        using "1.prems"(1) lt fd
        by (simp add: make_udp_range_loop.simps [of w ifname hints num_ports i])
      have de: "deleted_comm (evs @ ?oev @ [Comm_point_create_udp ?fd ?cp]) = deleted_comm evs"
        by (simp add: deleted_comm_append open_udp_port_range_events)
      show ?thesis
      proof (cases ?cp)
        case None
        have same: "coms[off + ndone := ?cp] = coms"
          using None filled_to_update_None [OF "1.prems"(2)] by simp
        have f: "filled_to (coms[off + ndone := ?cp]) (off + (if ?cp \<noteq> None then ndone + 1 else ndone))"
          using "1.prems"(2) None same by simp
        have room: "off + (if ?cp \<noteq> None then ndone + 1 else ndone) + (num_ports - (i + 1))
            < length (coms[off + ndone := ?cp])"
          using "1.prems"(3) None by simp
        note IH = "1.IH"(2) [OF lt fd rec' f room]
        have cr: "created_comm (evs @ ?oev @ [Comm_point_create_udp ?fd ?cp]) = created_comm evs"
          using None by (simp add: created_comm_append open_udp_port_range_events)
        have c1: "filled_to coms' (off + n')" and c2': "(if ?cp \<noteq> None then ndone + 1 else ndone) \<le> n'"
          and c3': "n' \<le> (if ?cp \<noteq> None then ndone + 1 else ndone) + (num_ports - (i + 1))"
          and c4': "length coms' = length (coms[off + ndone := ?cp])"
          and c5': "mset (created_comm evs') + mset (somes (coms[off + ndone := ?cp]))
            = mset (created_comm (evs @ ?oev @ [Comm_point_create_udp ?fd ?cp])) + mset (somes coms')"
          and c6': "deleted_comm evs' = deleted_comm (evs @ ?oev @ [Comm_point_create_udp ?fd ?cp])"
          using IH by blast+
        have c2: "ndone \<le> n'"
          using c2' None by simp
        have c3: "n' \<le> ndone + (num_ports - i)"
          using c3' None by simp
        have c4: "length coms' = length coms"
          using c4' by simp
        have c5: "mset (created_comm evs') + mset (somes coms)
            = mset (created_comm evs) + mset (somes coms')"
          using c5' same cr by simp
        have c6: "deleted_comm evs' = deleted_comm evs"
          using c6' de by simp
        show ?thesis
          using c1 c2 c3 c4 c5 c6 by blast
      next
        case (Some c)
        have slot: "Suc (off + ndone) < length coms"
          using "1.prems"(3) lt by simp
        note U = filled_to_update_Some [OF "1.prems"(2) slot, of c]
        have f: "filled_to (coms[off + ndone := ?cp]) (off + (if ?cp \<noteq> None then ndone + 1 else ndone))"
          using U(1) Some by simp
        have room: "off + (if ?cp \<noteq> None then ndone + 1 else ndone) + (num_ports - (i + 1))
            < length (coms[off + ndone := ?cp])"
          using "1.prems"(3) lt Some by simp
        note IH = "1.IH"(2) [OF lt fd rec' f room]
        have cr: "created_comm (evs @ ?oev @ [Comm_point_create_udp ?fd ?cp]) = created_comm evs @ [c]"
          using Some by (simp add: created_comm_append open_udp_port_range_events)
        have c1: "filled_to coms' (off + n')" and c2': "(if ?cp \<noteq> None then ndone + 1 else ndone) \<le> n'"
          and c3': "n' \<le> (if ?cp \<noteq> None then ndone + 1 else ndone) + (num_ports - (i + 1))"
          and c4': "length coms' = length (coms[off + ndone := ?cp])"
          and c5': "mset (created_comm evs') + mset (somes (coms[off + ndone := ?cp]))
            = mset (created_comm (evs @ ?oev @ [Comm_point_create_udp ?fd ?cp])) + mset (somes coms')"
          and c6': "deleted_comm evs' = deleted_comm (evs @ ?oev @ [Comm_point_create_udp ?fd ?cp])"
          using IH by blast+
        have c2: "ndone \<le> n'"
          using c2' Some by simp
        have c3: "n' \<le> ndone + (num_ports - i)"
          using c3' Some lt by simp
        have c4: "length coms' = length coms"
          using c4' by simp
        have c5: "mset (created_comm evs') + mset (somes coms)
            = mset (created_comm evs) + mset (somes coms')"
          using c5' U(2) Some cr by simp
        have c6: "deleted_comm evs' = deleted_comm evs"
          using c6' de by simp
        show ?thesis
          using c1 c2 c3 c4 c5 c6 by blast
      qed
    qed
  qed
qed

lemma make_udp_range_inv:
  assumes "make_udp_range w coms off ifname num_ports do_ip4 do_ip6 porthint k = (n, coms', k', evs)"
    and "filled_to coms off" and "off + num_ports < length coms"
  shows "filled_to coms' (off + n) \<and> n \<le> num_ports \<and> length coms' = length coms
       \<and> mset (created_comm evs) + mset (somes coms) = mset (somes coms')
       \<and> deleted_comm evs = []"
  using make_udp_range_loop_inv [OF assms(1) [unfolded make_udp_range_def]] assms(2,3)
  by simp

section \<open>Opening the ports\<close>

lemma calc_num46_loop_eq:
  "calc_num46_loop w ifs do_ip4 do_ip6 m a b =
     (a + (if do_ip4 then m * length (filter (\<lambda>x. \<not> str_is_ip6 w x) ifs) else 0),
      b + (if do_ip6 then m * length (filter (str_is_ip6 w) ifs) else 0))"
  by (induction ifs arbitrary: a b) (simp_all add: algebra_simps)

lemma calc_num46_eq:
  "ifs \<noteq> [] \<Longrightarrow> calc_num46 w ifs do_ip4 do_ip6 m =
     ((if do_ip4 then m * length (filter (\<lambda>x. \<not> str_is_ip6 w x) ifs) else 0),
      (if do_ip6 then m * length (filter (str_is_ip6 w) ifs) else 0))"
  by (simp add: calc_num46_def calc_num46_loop_eq)

lemma calc_num46_default:
  "calc_num46 w [] do_ip4 do_ip6 m = (if do_ip4 then m else 0, if do_ip6 then m else 0)"
  by (simp add: calc_num46_def)

lemma filled_to_0_somes: "filled_to coms 0 \<Longrightarrow> somes coms = []"
  by (simp add: filled_to_def somes_all_None)

lemma open_default_ports_inv:
  assumes "open_default_ports w outnet num_ports do_ip4 do_ip6 port_base = (outnet', k, evs)"
    and "filled_to (udp4_ports outnet) 0" and "filled_to (udp6_ports outnet) 0"
    and "do_ip4 \<longrightarrow> num_ports < length (udp4_ports outnet)"
    and "do_ip6 \<longrightarrow> num_ports < length (udp6_ports outnet)"
    and "\<not> do_ip4 \<longrightarrow> num_udp4 outnet = 0" and "\<not> do_ip6 \<longrightarrow> num_udp6 outnet = 0"
  shows "filled_to (udp4_ports outnet') (num_udp4 outnet')
       \<and> filled_to (udp6_ports outnet') (num_udp6 outnet')
       \<and> mset (created_comm evs)
            = mset (somes (udp4_ports outnet')) + mset (somes (udp6_ports outnet'))
       \<and> deleted_comm evs = []
       \<and> pending_tree outnet' = pending_tree outnet"
proof -
  obtain n6 coms6 k6 evs6 where m6:
    "make_udp_range w (udp6_ports outnet) 0 None num_ports False True port_base 0
       = (n6, coms6, k6, evs6)"
    by (metis prod_cases4)
  define outnet6 where "outnet6 = (if do_ip6 then outnet\<lparr>num_udp6 := n6, udp6_ports := coms6\<rparr> else outnet)"
  define k6' where "k6' = (if do_ip6 then k6 else 0)"
  define evs6' where "evs6' = (if do_ip6 then evs6 else [])"
  obtain n4 coms4 k4 evs4 where m4:
    "make_udp_range w (udp4_ports outnet6) 0 None num_ports True False port_base k6'
       = (n4, coms4, k4, evs4)"
    by (metis prod_cases4)
  have res: "outnet' = (if do_ip4 then outnet6\<lparr>num_udp4 := n4, udp4_ports := coms4\<rparr> else outnet6)"
    "evs = (if do_ip4 then evs6' @ evs4 else evs6')"
    using assms(1) m6 m4
    by (auto simp: open_default_ports_def outnet6_def k6'_def evs6'_def split: if_splits)
  have u4: "udp4_ports outnet6 = udp4_ports outnet" and n4': "num_udp4 outnet6 = num_udp4 outnet"
    and t6: "pending_tree outnet6 = pending_tree outnet"
    by (simp_all add: outnet6_def)
  have s6: "filled_to (udp6_ports outnet6) (num_udp6 outnet6)
      \<and> mset (created_comm evs6') = mset (somes (udp6_ports outnet6))
      \<and> deleted_comm evs6' = []"
  proof (cases do_ip6)
    case True
    have "filled_to (udp6_ports outnet) 0" and "0 + num_ports < length (udp6_ports outnet)"
      using assms(3,5) True by simp_all
    from make_udp_range_inv [OF m6 this]
    show ?thesis
      using True filled_to_0_somes [OF assms(3)] by (simp add: outnet6_def evs6'_def)
  next
    case False
    then show ?thesis
      using assms(3,7) filled_to_0_somes [OF assms(3)] by (simp add: outnet6_def evs6'_def)
  qed
  show ?thesis
  proof (cases do_ip4)
    case True
    have "filled_to (udp4_ports outnet6) 0" and "0 + num_ports < length (udp4_ports outnet6)"
      using assms(2,4) u4 True by simp_all
    from make_udp_range_inv [OF m4 this]
    show ?thesis
      using True s6 res t6 filled_to_0_somes [OF assms(2)] u4
      by (simp add: created_comm_append deleted_comm_append)
  next
    case False
    then show ?thesis
      using s6 res t6 assms(2,6) filled_to_0_somes [OF assms(2)] u4 n4' by simp
  qed
qed

section \<open>The loop over the interfaces\<close>

lemma open_if_port_inv:
  assumes "if_ports_inv w do_ip4 do_ip6 num_ports (ifname # ifs) st"
  shows "if_ports_inv w do_ip4 do_ip6 num_ports ifs
           (open_if_port w ifname num_ports do_ip4 do_ip6 port_base st)
       \<and> num_udp4 (fst (open_if_port w ifname num_ports do_ip4 do_ip6 port_base st)) = num_udp4 (fst st)
       \<and> num_udp6 (fst (open_if_port w ifname num_ports do_ip4 do_ip6 port_base st)) = num_udp6 (fst st)
       \<and> pending_tree (fst (open_if_port w ifname num_ports do_ip4 do_ip6 port_base st))
            = pending_tree (fst st)
       \<and> length (udp4_ports (fst (open_if_port w ifname num_ports do_ip4 do_ip6 port_base st)))
            = length (udp4_ports (fst st))
       \<and> length (udp6_ports (fst (open_if_port w ifname num_ports do_ip4 do_ip6 port_base st)))
            = length (udp6_ports (fst st))"
proof -
  obtain outnet done_4 done_6 k evs where st: "st = (outnet, done_4, done_6, k, evs)"
    by (metis prod_cases5)
  have f4: "filled_to (udp4_ports outnet) done_4" and f6: "filled_to (udp6_ports outnet) done_6"
    and r4: "done_4 + (if do_ip4 then num_ports * length (filter (\<lambda>x. \<not> str_is_ip6 w x) (ifname # ifs)) else 0)
               < length (udp4_ports outnet)"
    and r6: "done_6 + (if do_ip6 then num_ports * length (filter (str_is_ip6 w) (ifname # ifs)) else 0)
               < length (udp6_ports outnet)"
    and cr: "mset (created_comm evs) = mset (somes (udp4_ports outnet)) + mset (somes (udp6_ports outnet))"
    and de: "deleted_comm evs = []"
    using assms by (simp_all add: if_ports_inv_def st)
  show ?thesis
  proof (cases "str_is_ip6 w ifname")
    case ip6: True
    show ?thesis
    proof (cases do_ip6)
      case True
      obtain n coms k' evs' where m: "make_udp_range w (udp6_ports outnet) done_6 (Some ifname)
          num_ports False True port_base k = (n, coms, k', evs')"
        by (metis prod_cases4)
      have room: "done_6 + num_ports < length (udp6_ports outnet)"
        using r6 ip6 True by simp
      note M = make_udp_range_inv [OF m f6 room]
      have res: "open_if_port w ifname num_ports do_ip4 do_ip6 port_base st
          = (outnet\<lparr>udp6_ports := coms\<rparr>, done_4, done_6 + n, k', evs @ evs')"
        using ip6 True m by (simp add: open_if_port_def st)
      have r6': "done_6 + n + (if do_ip6 then num_ports * length (filter (str_is_ip6 w) ifs) else 0)
          < length coms"
      proof -
        have "done_6 + n + num_ports * length (filter (str_is_ip6 w) ifs)
            \<le> done_6 + num_ports + num_ports * length (filter (str_is_ip6 w) ifs)"
          using M by simp
        also have "\<dots> < length (udp6_ports outnet)"
          using r6 ip6 True by simp
        finally show ?thesis
          using M True by simp
      qed
      have r4': "done_4 + (if do_ip4 then num_ports * length (filter (\<lambda>x. \<not> str_is_ip6 w x) ifs) else 0)
          < length (udp4_ports outnet)"
        using r4 by (simp add: ip6 split: if_splits)
      have cr': "mset (created_comm (evs @ evs'))
          = mset (somes (udp4_ports outnet)) + mset (somes coms)"
      proof -
        have e: "mset (created_comm evs') + mset (somes (udp6_ports outnet)) = mset (somes coms)"
          using M by blast
        have "mset (created_comm (evs @ evs'))
            = mset (somes (udp4_ports outnet))
              + (mset (created_comm evs') + mset (somes (udp6_ports outnet)))"
          by (simp add: created_comm_append cr ac_simps)
        then show ?thesis
          by (simp only: e)
      qed
      have de': "deleted_comm (evs @ evs') = []"
        using de M by (simp add: deleted_comm_append)
      show ?thesis
        unfolding res using f4 M r6' r4' cr' de' by (simp add: if_ports_inv_def st)
    next
      case False
      have res: "open_if_port w ifname num_ports do_ip4 do_ip6 port_base st = st"
        using ip6 False by (simp add: open_if_port_def st)
      show ?thesis
        unfolding res using f4 f6 r4 r6 cr de by (simp add: if_ports_inv_def st ip6 False split: if_splits)
    qed
  next
    case ip4: False
    show ?thesis
    proof (cases do_ip4)
      case True
      obtain n coms k' evs' where m: "make_udp_range w (udp4_ports outnet) done_4 (Some ifname)
          num_ports True False port_base k = (n, coms, k', evs')"
        by (metis prod_cases4)
      have room: "done_4 + num_ports < length (udp4_ports outnet)"
        using r4 ip4 True by simp
      note M = make_udp_range_inv [OF m f4 room]
      have res: "open_if_port w ifname num_ports do_ip4 do_ip6 port_base st
          = (outnet\<lparr>udp4_ports := coms\<rparr>, done_4 + n, done_6, k', evs @ evs')"
        using ip4 True m by (simp add: open_if_port_def st)
      have r4': "done_4 + n + (if do_ip4 then num_ports * length (filter (\<lambda>x. \<not> str_is_ip6 w x) ifs) else 0)
          < length coms"
      proof -
        have "done_4 + n + num_ports * length (filter (\<lambda>x. \<not> str_is_ip6 w x) ifs)
            \<le> done_4 + num_ports + num_ports * length (filter (\<lambda>x. \<not> str_is_ip6 w x) ifs)"
          using M by simp
        also have "\<dots> < length (udp4_ports outnet)"
          using r4 ip4 True by simp
        finally show ?thesis
          using M True by simp
      qed
      have r6': "done_6 + (if do_ip6 then num_ports * length (filter (str_is_ip6 w) ifs) else 0)
          < length (udp6_ports outnet)"
        using r6 by (simp add: ip4 split: if_splits)
      have cr': "mset (created_comm (evs @ evs'))
          = mset (somes coms) + mset (somes (udp6_ports outnet))"
      proof -
        have e: "mset (created_comm evs') + mset (somes (udp4_ports outnet)) = mset (somes coms)"
          using M by blast
        have "mset (created_comm (evs @ evs'))
            = (mset (created_comm evs') + mset (somes (udp4_ports outnet)))
              + mset (somes (udp6_ports outnet))"
          by (simp add: created_comm_append cr ac_simps)
        then show ?thesis
          by (simp only: e)
      qed
      have de': "deleted_comm (evs @ evs') = []"
        using de M by (simp add: deleted_comm_append)
      show ?thesis
        unfolding res using f6 M r6' r4' cr' de' by (simp add: if_ports_inv_def st)
    next
      case False
      have res: "open_if_port w ifname num_ports do_ip4 do_ip6 port_base st = st"
        using ip4 False by (simp add: open_if_port_def st)
      show ?thesis
        unfolding res using f4 f6 r4 r6 cr de by (simp add: if_ports_inv_def st ip4 False split: if_splits)
    qed
  qed
qed

lemma open_if_ports_inv:
  assumes "if_ports_inv w do_ip4 do_ip6 num_ports ifs st"
  shows "if_ports_inv w do_ip4 do_ip6 num_ports []
           (open_if_ports w ifs num_ports do_ip4 do_ip6 port_base st)
       \<and> num_udp4 (fst (open_if_ports w ifs num_ports do_ip4 do_ip6 port_base st)) = num_udp4 (fst st)
       \<and> num_udp6 (fst (open_if_ports w ifs num_ports do_ip4 do_ip6 port_base st)) = num_udp6 (fst st)
       \<and> pending_tree (fst (open_if_ports w ifs num_ports do_ip4 do_ip6 port_base st))
            = pending_tree (fst st)
       \<and> length (udp4_ports (fst (open_if_ports w ifs num_ports do_ip4 do_ip6 port_base st)))
            = length (udp4_ports (fst st))
       \<and> length (udp6_ports (fst (open_if_ports w ifs num_ports do_ip4 do_ip6 port_base st)))
            = length (udp6_ports (fst st))"
  using assms
proof (induction ifs arbitrary: st)
  case Nil
  then show ?case by simp
next
  case (Cons ifname ifs)
  note S = open_if_port_inv [OF Cons.prems, of port_base]
  have inv: "if_ports_inv w do_ip4 do_ip6 num_ports ifs
      (open_if_port w ifname num_ports do_ip4 do_ip6 port_base st)"
    using S by blast
  show ?case
    using Cons.IH [OF inv] S by simp
qed

section \<open>Construction\<close>

lemma created_comm_map_delete: "created_comm (map Comm_point_delete xs) = []"
  by (induction xs) simp_all

lemma outside_network_delete_events:
  assumes "num_udp4 outnet \<le> length (udp4_ports outnet)"
    and "num_udp6 outnet \<le> length (udp6_ports outnet)"
  shows "deleted_comm (outside_network_delete (Some (all_set, outnet)))
           = somes (take (num_udp4 outnet) (udp4_ports outnet))
             @ somes (take (num_udp6 outnet) (udp6_ports outnet))"
    and "created_comm (outside_network_delete (Some (all_set, outnet))) = []"
    and "last (outside_network_delete (Some (all_set, outnet))) = Free_outside_network"
  using assms
  by (simp_all add: outside_network_delete_def all_set_def map_nth_upt deleted_comm_append
      created_comm_append deleted_comm_map created_comm_map_delete)

lemma outnet_calloc_simps:
  "num_udp4 (outnet_calloc w ifs do_ip4 do_ip6 n) = fst (calc_num46 w ifs do_ip4 do_ip6 n)"
  "num_udp6 (outnet_calloc w ifs do_ip4 do_ip6 n) = snd (calc_num46 w ifs do_ip4 do_ip6 n)"
  "length (udp4_ports (outnet_calloc w ifs do_ip4 do_ip6 n)) = fst (calc_num46 w ifs do_ip4 do_ip6 n) + 1"
  "length (udp6_ports (outnet_calloc w ifs do_ip4 do_ip6 n)) = snd (calc_num46 w ifs do_ip4 do_ip6 n) + 1"
  "filled_to (udp4_ports (outnet_calloc w ifs do_ip4 do_ip6 n)) 0"
  "filled_to (udp6_ports (outnet_calloc w ifs do_ip4 do_ip6 n)) 0"
  "pending_tree (outnet_calloc w ifs do_ip4 do_ip6 n) = []"
  using filled_to_replicate by (simp_all add: outnet_calloc_def)

lemma open_default_ports_calloc:
  assumes "open_default_ports w (outnet_calloc w [] do_ip4 do_ip6 num_ports) num_ports
             do_ip4 do_ip6 port_base = (outnet', k, evs)"
  shows "filled_to (udp4_ports outnet') (num_udp4 outnet')
       \<and> filled_to (udp6_ports outnet') (num_udp6 outnet')
       \<and> mset (created_comm evs)
            = mset (somes (udp4_ports outnet')) + mset (somes (udp6_ports outnet'))
       \<and> deleted_comm evs = []
       \<and> pending_tree outnet' = []"
proof -
  let ?o = "outnet_calloc w [] do_ip4 do_ip6 num_ports"
  have a: "do_ip4 \<longrightarrow> num_ports < length (udp4_ports ?o)"
    and b: "do_ip6 \<longrightarrow> num_ports < length (udp6_ports ?o)"
    and c: "\<not> do_ip4 \<longrightarrow> num_udp4 ?o = 0" and d: "\<not> do_ip6 \<longrightarrow> num_udp6 ?o = 0"
    by (simp_all add: outnet_calloc_simps calc_num46_default)
  show ?thesis
    using open_default_ports_inv [OF assms outnet_calloc_simps(5) outnet_calloc_simps(6) a b c d]
    by (simp add: outnet_calloc_simps)
qed

lemma open_if_ports_calloc:
  assumes "ifs \<noteq> []"
    and "open_if_ports w ifs num_ports do_ip4 do_ip6 port_base
           (outnet_calloc w ifs do_ip4 do_ip6 num_ports, 0, 0, 0, []) = (outnet', done_4, done_6, k, evs)"
  shows "filled_to (udp4_ports outnet') done_4 \<and> filled_to (udp6_ports outnet') done_6
       \<and> done_4 \<le> num_udp4 outnet' \<and> done_6 \<le> num_udp6 outnet'
       \<and> num_udp4 outnet' < length (udp4_ports outnet')
       \<and> num_udp6 outnet' < length (udp6_ports outnet')
       \<and> num_udp4 outnet' = fst (calc_num46 w ifs do_ip4 do_ip6 num_ports)
       \<and> num_udp6 outnet' = snd (calc_num46 w ifs do_ip4 do_ip6 num_ports)
       \<and> mset (created_comm evs)
            = mset (somes (udp4_ports outnet')) + mset (somes (udp6_ports outnet'))
       \<and> deleted_comm evs = []
       \<and> pending_tree outnet' = []"
proof -
  let ?o = "outnet_calloc w ifs do_ip4 do_ip6 num_ports"
  have s0: "somes (udp4_ports ?o) = []" "somes (udp6_ports ?o) = []"
    by (simp_all add: filled_to_0_somes outnet_calloc_simps)
  have inv0: "if_ports_inv w do_ip4 do_ip6 num_ports ifs (?o, 0, 0, 0, [])"
    using assms(1) by (simp add: if_ports_inv_def outnet_calloc_simps calc_num46_eq s0)
  note L = open_if_ports_inv [OF inv0, of port_base, unfolded assms(2)]
  have inv: "if_ports_inv w do_ip4 do_ip6 num_ports [] (outnet', done_4, done_6, k, evs)"
    using L by blast
  have len: "length (udp4_ports outnet') = num_udp4 outnet' + 1"
    "length (udp6_ports outnet') = num_udp6 outnet' + 1"
    using L by (simp_all add: outnet_calloc_simps)
  show ?thesis
    using inv L len by (simp add: if_ports_inv_def outnet_calloc_simps)
qed

section \<open>Construction: success and shortfall\<close>

lemma outside_network_create_Some:
  assumes "outside_network_create w bufsize num_ports ifs do_ip4 do_ip6 port_base = (Some outnet, evs)"
  shows "filled_to (udp4_ports outnet) (num_udp4 outnet)
       \<and> filled_to (udp6_ports outnet) (num_udp6 outnet)
       \<and> pending_tree outnet = [] \<and> deleted_comm evs = []
       \<and> mset (created_comm evs)
            = mset (somes (udp4_ports outnet)) + mset (somes (udp6_ports outnet))"
proof -
  let ?d6 = "have_INET6 w \<and> do_ip6"
  let ?o = "outnet_calloc w ifs do_ip4 ?d6 num_ports"
  have ok: "calloc_outnet_ok w" "ldns_buffer_new_ok w" "calloc_udp4_ports_ok w"
    "calloc_udp6_ports_ok w" "rbtree_create_ok w"
    using assms by (auto simp: outside_network_create_def Let_def split: if_splits)
  show ?thesis
  proof (cases "ifs = []")
    case True
    obtain outnet' k evs' where od: "open_default_ports w (outnet_calloc w [] do_ip4 ?d6 num_ports)
        num_ports do_ip4 ?d6 port_base = (outnet', k, evs')"
      by (metis prod_cases3)
    have "outnet = outnet'" and "evs = evs'"
      using assms ok True od
      by (auto simp: outside_network_create_def Let_def split: if_splits)
    then show ?thesis
      using open_default_ports_calloc [OF od] by simp
  next
    case False
    obtain outnet' done_4 done_6 k evs' where oi: "open_if_ports w ifs num_ports do_ip4 ?d6 port_base
        (?o, 0, 0, 0, []) = (outnet', done_4, done_6, k, evs')"
      by (metis prod_cases5)
    have "outnet = outnet'\<lparr>num_udp6 := done_6, num_udp4 := done_4\<rparr>" and "evs = evs'"
      using assms ok False oi
      by (auto simp: outside_network_create_def Let_def split: if_splits)
    then show ?thesis
      using open_if_ports_calloc [OF False oi] by simp
  qed
qed

lemma outside_network_create_shortfall_aux:
  assumes "calloc_outnet_ok w" and "ldns_buffer_new_ok w" and "calloc_udp4_ports_ok w"
    and "calloc_udp6_ports_ok w" and "rbtree_create_ok w"
    and "requested = calc_num46 w ifs do_ip4 (have_INET6 w \<and> do_ip6) num_ports"
    and "opened = opened_counts w num_ports ifs do_ip4 (have_INET6 w \<and> do_ip6) port_base"
    and "(do_ip4 \<and> fst opened \<noteq> fst requested)
         \<or> (have_INET6 w \<and> do_ip6 \<and> snd opened \<noteq> snd requested)"
  shows "\<exists>evs. outside_network_create w bufsize num_ports ifs do_ip4 do_ip6 port_base = (None, evs)
       \<and> mset (deleted_comm evs) = mset (created_comm evs)
       \<and> last evs = Free_outside_network"
proof -
  let ?d6 = "have_INET6 w \<and> do_ip6"
  let ?o = "outnet_calloc w ifs do_ip4 ?d6 num_ports"
  show ?thesis
  proof (cases "ifs = []")
    case True
    obtain outnet' k evs' where od: "open_default_ports w (outnet_calloc w [] do_ip4 ?d6 num_ports)
        num_ports do_ip4 ?d6 port_base = (outnet', k, evs')"
      by (metis prod_cases3)
    note D = open_default_ports_calloc [OF od]
    have op: "opened = (num_udp4 outnet', num_udp6 outnet')"
      using assms(7) True od by (simp add: opened_counts_def)
    have rq: "requested = (if do_ip4 then num_ports else 0, if ?d6 then num_ports else 0)"
      using assms(6) True by (simp add: calc_num46_default)
    have chk: "(do_ip4 \<and> num_udp4 outnet' \<noteq> num_ports) \<or> (?d6 \<and> num_udp6 outnet' \<noteq> num_ports)"
      using assms(8) op rq by auto
    let ?evs = "evs' @ Log_err ''Could not open all networkside ports'' #
        outside_network_delete (Some (all_set, outnet'))"
    have res: "outside_network_create w bufsize num_ports ifs do_ip4 do_ip6 port_base = (None, ?evs)"
      using assms(1-5) True od chk by (simp add: outside_network_create_def Let_def)
    have le: "num_udp4 outnet' \<le> length (udp4_ports outnet')"
      "num_udp6 outnet' \<le> length (udp6_ports outnet')"
      using D by (simp_all add: filled_to_def)
    note E = outside_network_delete_events [OF le]
    have t4: "somes (take (num_udp4 outnet') (udp4_ports outnet')) = somes (udp4_ports outnet')"
      and t6: "somes (take (num_udp6 outnet') (udp6_ports outnet')) = somes (udp6_ports outnet')"
      using D filled_to_somes_take [of "udp4_ports outnet'" "num_udp4 outnet'" "num_udp4 outnet'"]
        filled_to_somes_take [of "udp6_ports outnet'" "num_udp6 outnet'" "num_udp6 outnet'"]
      by simp_all
    have "mset (deleted_comm ?evs) = mset (created_comm ?evs)"
      using D E t4 t6 by (simp add: deleted_comm_append created_comm_append)
    moreover have "last ?evs = Free_outside_network"
      using E(3) by (simp add: outside_network_delete_def)
    ultimately show ?thesis
      using res by blast
  next
    case False
    obtain outnet' done_4 done_6 k evs' where oi: "open_if_ports w ifs num_ports do_ip4 ?d6 port_base
        (?o, 0, 0, 0, []) = (outnet', done_4, done_6, k, evs')"
      by (metis prod_cases5)
    note I = open_if_ports_calloc [OF False oi]
    have op: "opened = (done_4, done_6)"
      using assms(7) False oi by (simp add: opened_counts_def)
    have rq: "requested = (num_udp4 outnet', num_udp6 outnet')"
      using assms(6) I by simp
    have chk: "done_6 \<noteq> num_udp6 outnet' \<or> done_4 \<noteq> num_udp4 outnet'"
      using assms(8) op rq by auto
    let ?evs = "evs' @ Log_err ''Could not open all ports on all interfaces'' #
        outside_network_delete (Some (all_set, outnet'))"
    have res: "outside_network_create w bufsize num_ports ifs do_ip4 do_ip6 port_base = (None, ?evs)"
      using assms(1-5) False oi chk by (simp add: outside_network_create_def Let_def)
    have le: "num_udp4 outnet' \<le> length (udp4_ports outnet')"
      "num_udp6 outnet' \<le> length (udp6_ports outnet')"
      using I by simp_all
    note E = outside_network_delete_events [OF le]
    have t4: "somes (take (num_udp4 outnet') (udp4_ports outnet')) = somes (udp4_ports outnet')"
      and t6: "somes (take (num_udp6 outnet') (udp6_ports outnet')) = somes (udp6_ports outnet')"
      using I filled_to_somes_take [of "udp4_ports outnet'" done_4 "num_udp4 outnet'"]
        filled_to_somes_take [of "udp6_ports outnet'" done_6 "num_udp6 outnet'"]
      by simp_all
    have "mset (deleted_comm ?evs) = mset (created_comm ?evs)"
      using I E t4 t6 by (simp add: deleted_comm_append created_comm_append)
    moreover have "last ?evs = Free_outside_network"
      using E(3) by (simp add: outside_network_delete_def)
    ultimately show ?thesis
      using res by blast
  qed
qed

lemma select_port_no_fault:
  assumes "filled_to (udp4_ports outnet) (num_udp4 outnet)"
    and "filled_to (udp6_ports outnet) (num_udp6 outnet)"
    and "num_udp4 outnet < 2 ^ 31" and "num_udp6 outnet < 2 ^ 31"
  shows "select_port e outnet pend rnd \<noteq> Inl f"
proof -
  define N where "N = (if addr_is_ip6 (pend_addr pend) then num_udp6 outnet else num_udp4 outnet)"
  define ports where "ports = (if addr_is_ip6 (pend_addr pend) then udp6_ports outnet
      else udp4_ports outnet)"
  have fill: "filled_to ports N"
    using assms(1,2) by (simp add: N_def ports_def)
  show ?thesis
  proof (cases "N = 0")
    case True
    then show ?thesis
      using select_port_no_ports [of pend outnet e rnd] by (simp add: N_def)
  next
    case False
    have "N < 2 ^ 31"
      using assms(3,4) by (simp add: N_def)
    moreover have "N \<le> length ports"
      using fill by (simp add: filled_to_def)
    ultimately obtain i where i: "i < N" and sp: "select_port e outnet pend rnd =
        (case ports ! i of None \<Rightarrow> Inl Assertion_failed
         | Some cp \<Rightarrow> Inr (pend\<lparr>pend_c := Some cp\<rparr>, snd (ub_random rnd), []))"
      using select_port_in_pool [OF N_def ports_def, of e rnd] False by auto
    have "ports ! i \<noteq> None"
      using filled_to_nth [OF fill i] by simp
    then show ?thesis
      using sp by auto
  qed
qed

section \<open>The claims about construction\<close>

lemma create_short_example:
  "outside_network_create world_short 65552 3 [] True False (- 1)
     = (None,
        [Comm_point_create_udp 3 (Some 3), Comm_point_create_udp 5 (Some 5),
         Log_err ''Could not open all networkside ports'',
         Comm_point_delete (Some 3), Comm_point_delete (Some 5), Free_outside_network])"
proof -
  let ?o0 = "\<lparr>num_udp4 = 3, num_udp6 = 0, udp4_ports = [None, None, None, None],
      udp6_ports = [None], pending_tree = []\<rparr>"
  let ?o1 = "\<lparr>num_udp4 = 2, num_udp6 = 0, udp4_ports = [Some 3, Some 5, None, None],
      udp6_ports = [None], pending_tree = []\<rparr>"
  let ?e1 = "[Comm_point_create_udp 3 (Some 3), Comm_point_create_udp 5 (Some 5)]"
  have w: "calloc_outnet_ok world_short" "ldns_buffer_new_ok world_short"
    "calloc_udp4_ports_ok world_short" "calloc_udp6_ports_ok world_short"
    "rbtree_create_ok world_short" "have_INET6 world_short"
    by (simp_all add: world_short_def world_example_def)
  have o: "outnet_calloc world_short [] True False 3 = ?o0"
    by code_simp
  have d: "open_default_ports world_short ?o0 3 True False (- 1) = (?o1, 3, ?e1)"
    by code_simp
  have del: "outside_network_delete (Some (all_set, ?o1))
      = [Comm_point_delete (Some 3), Comm_point_delete (Some 5), Free_outside_network]"
    by code_simp
  show ?thesis
    by (simp add: outside_network_create_def w o d del)
qed

text \<open>
  C6. When every allocation has succeeded and, at the check that follows the opening of
  the ports, the number of ports opened for an enabled family differs from the number
  requested for it, \<open>outside_network_create\<close> returns no dispatcher: it has handed the
  struct to \<open>outside_network_delete\<close>, so every comm point it created has been deleted
  (the comm points deleted are, as a multiset, the comm points created) and the struct has
  been freed last.
\<close>

theorem outside_network_create_shortfall:
  assumes "calloc_outnet_ok w" and "ldns_buffer_new_ok w" and "calloc_udp4_ports_ok w"
    and "calloc_udp6_ports_ok w" and "rbtree_create_ok w"
    and "requested = calc_num46 w ifs do_ip4 (have_INET6 w \<and> do_ip6) num_ports"
    and "opened = opened_counts w num_ports ifs do_ip4 (have_INET6 w \<and> do_ip6) port_base"
    and "(do_ip4 \<and> fst opened \<noteq> fst requested)
         \<or> (have_INET6 w \<and> do_ip6 \<and> snd opened \<noteq> snd requested)"
  shows "\<exists>evs. outside_network_create w bufsize num_ports ifs do_ip4 do_ip6 port_base = (None, evs)
       \<and> mset (deleted_comm evs) = mset (created_comm evs)
       \<and> last evs = Free_outside_network"
  using assms by (rule outside_network_create_shortfall_aux)

theorem outside_network_create_shortfall_witness:
  "calloc_outnet_ok world_short \<and> ldns_buffer_new_ok world_short
   \<and> calloc_udp4_ports_ok world_short \<and> calloc_udp6_ports_ok world_short
   \<and> rbtree_create_ok world_short
   \<and> (3, 0) = calc_num46 world_short [] True (have_INET6 world_short \<and> False) 3
   \<and> (2, 0) = opened_counts world_short 3 [] True (have_INET6 world_short \<and> False) (- 1)
   \<and> ((True \<and> fst (2 :: nat, 0 :: nat) \<noteq> fst (3 :: nat, 0 :: nat))
        \<or> (have_INET6 world_short \<and> False \<and> snd (2 :: nat, 0 :: nat) \<noteq> snd (3 :: nat, 0 :: nat)))
   \<and> outside_network_create world_short 65552 3 [] True False (- 1)
       = (None,
          [Comm_point_create_udp 3 (Some 3), Comm_point_create_udp 5 (Some 5),
           Log_err ''Could not open all networkside ports'',
           Comm_point_delete (Some 3), Comm_point_delete (Some 5), Free_outside_network])
   \<and> (\<exists>evs. outside_network_create world_short 65552 3 [] True False (- 1) = (None, evs)
         \<and> mset (deleted_comm evs) = mset (created_comm evs)
         \<and> last evs = Free_outside_network)"
proof -
  have a: "calloc_outnet_ok world_short" "ldns_buffer_new_ok world_short"
    "calloc_udp4_ports_ok world_short" "calloc_udp6_ports_ok world_short"
    "rbtree_create_ok world_short"
    by (simp_all add: world_short_def world_example_def)
  have r: "(3, 0) = calc_num46 world_short [] True (have_INET6 world_short \<and> False) 3"
    by code_simp
  have p: "(2, 0) = opened_counts world_short 3 [] True (have_INET6 world_short \<and> False) (- 1)"
    by code_simp
  have d: "(True \<and> fst (2 :: nat, 0 :: nat) \<noteq> fst (3 :: nat, 0 :: nat))
        \<or> (have_INET6 world_short \<and> False \<and> snd (2 :: nat, 0 :: nat) \<noteq> snd (3 :: nat, 0 :: nat))"
    by simp
  have c: "outside_network_create world_short 65552 3 [] True False (- 1)
       = (None,
          [Comm_point_create_udp 3 (Some 3), Comm_point_create_udp 5 (Some 5),
           Log_err ''Could not open all networkside ports'',
           Comm_point_delete (Some 3), Comm_point_delete (Some 5), Free_outside_network])"
    by (rule create_short_example)
  show ?thesis
    using a r p d c outside_network_create_shortfall [OF a r p d, of 65552] by blast
qed

lemma create_example:
  "outside_network_create world_example 65552 2 [''192.0.2.7'', ''2001:db8::7''] True True 5300
     = (Some \<lparr>num_udp4 = 2, num_udp6 = 2, udp4_ports = [Some 3, Some 4, None],
              udp6_ports = [Some 5, Some 6, None], pending_tree = []\<rparr>,
        [Comm_point_create_udp 3 (Some 3), Comm_point_create_udp 4 (Some 4),
         Comm_point_create_udp 5 (Some 5), Comm_point_create_udp 6 (Some 6)])"
proof -
  let ?o0 = "\<lparr>num_udp4 = 2, num_udp6 = 2, udp4_ports = [None, None, None],
      udp6_ports = [None, None, None], pending_tree = []\<rparr>"
  let ?o1 = "\<lparr>num_udp4 = 2, num_udp6 = 2, udp4_ports = [Some 3, Some 4, None],
      udp6_ports = [None, None, None], pending_tree = []\<rparr>"
  let ?o2 = "\<lparr>num_udp4 = 2, num_udp6 = 2, udp4_ports = [Some 3, Some 4, None],
      udp6_ports = [Some 5, Some 6, None], pending_tree = []\<rparr>"
  let ?e1 = "[Comm_point_create_udp 3 (Some 3), Comm_point_create_udp 4 (Some 4)]"
  let ?e2 = "[Comm_point_create_udp 3 (Some 3), Comm_point_create_udp 4 (Some 4),
      Comm_point_create_udp 5 (Some 5), Comm_point_create_udp 6 (Some 6)]"
  have w: "calloc_outnet_ok world_example" "ldns_buffer_new_ok world_example"
    "calloc_udp4_ports_ok world_example" "calloc_udp6_ports_ok world_example"
    "rbtree_create_ok world_example" "have_INET6 world_example"
    by (simp_all add: world_example_def)
  have o: "outnet_calloc world_example [''192.0.2.7'', ''2001:db8::7''] True True 2 = ?o0"
    by code_simp
  have s1: "open_if_port world_example ''192.0.2.7'' 2 True True 5300 (?o0, 0, 0, 0, [])
      = (?o1, 2, 0, 2, ?e1)"
    by code_simp
  have s2: "open_if_port world_example ''2001:db8::7'' 2 True True 5300 (?o1, 2, 0, 2, ?e1)
      = (?o2, 2, 2, 4, ?e2)"
    by code_simp
  show ?thesis
    by (simp add: outside_network_create_def w o s1 s2)
qed

text \<open>
  C9. In a dispatcher returned by \<open>outside_network_create\<close> the first \<open>num_udp4\<close> entries
  of \<open>udp4_ports\<close> are inside the array and not null, and likewise for \<open>udp6_ports\<close> and
  \<open>num_udp6\<close>. With counts in the range of an \<open>int\<close>, \<open>select_port\<close> on such a
  dispatcher neither reads outside an array nor fails its assertion that the comm point
  chosen is not null.
\<close>

theorem outside_network_create_hole_free:
  assumes "outside_network_create w bufsize num_ports ifs do_ip4 do_ip6 port_base = (Some outnet, evs)"
  shows "(\<forall>i<num_udp4 outnet. i < length (udp4_ports outnet) \<and> udp4_ports outnet ! i \<noteq> None)
       \<and> (\<forall>i<num_udp6 outnet. i < length (udp6_ports outnet) \<and> udp6_ports outnet ! i \<noteq> None)
       \<and> (num_udp4 outnet < 2 ^ 31 \<and> num_udp6 outnet < 2 ^ 31
            \<longrightarrow> (\<forall>e pend rnd f. select_port e outnet pend rnd \<noteq> Inl f))"
proof -
  note S = outside_network_create_Some [OF assms]
  have f4: "filled_to (udp4_ports outnet) (num_udp4 outnet)"
    and f6: "filled_to (udp6_ports outnet) (num_udp6 outnet)"
    using S by simp_all
  show ?thesis
    using filled_to_nth [OF f4] filled_to_nth [OF f6] select_port_no_fault [OF f4 f6]
    by blast
qed

theorem outside_network_create_hole_free_witness:
  "outside_network_create world_example 65552 2 [''192.0.2.7'', ''2001:db8::7''] True True 5300
     = (Some \<lparr>num_udp4 = 2, num_udp6 = 2, udp4_ports = [Some 3, Some 4, None],
              udp6_ports = [Some 5, Some 6, None], pending_tree = []\<rparr>,
        [Comm_point_create_udp 3 (Some 3), Comm_point_create_udp 4 (Some 4),
         Comm_point_create_udp 5 (Some 5), Comm_point_create_udp 6 (Some 6)])
   \<and> [Some 3, Some 4, None] ! 1 \<noteq> (None :: comm_point option)
   \<and> select_port env_round_up
        \<lparr>num_udp4 = 2, num_udp6 = 2, udp4_ports = [Some 3, Some 4, None],
         udp6_ports = [Some 5, Some 6, None], pending_tree = []\<rparr>
        (calloc_pending 5 addr4_example 16 1 2) rnd_example \<noteq> Inl Assertion_failed"
proof -
  let ?o = "\<lparr>num_udp4 = 2, num_udp6 = 2, udp4_ports = [Some 3, Some 4, None],
         udp6_ports = [Some 5, Some 6, None], pending_tree = []\<rparr>"
  have c: "outside_network_create world_example 65552 2 [''192.0.2.7'', ''2001:db8::7''] True True 5300
     = (Some ?o,
        [Comm_point_create_udp 3 (Some 3), Comm_point_create_udp 4 (Some 4),
         Comm_point_create_udp 5 (Some 5), Comm_point_create_udp 6 (Some 6)])"
    by (rule create_example)
  note T = outside_network_create_hole_free [OF c]
  have "udp4_ports ?o ! 1 \<noteq> None"
    using T by simp
  moreover have "select_port env_round_up ?o (calloc_pending 5 addr4_example 16 1 2) rnd_example
      \<noteq> Inl Assertion_failed"
    using T by simp
  ultimately show ?thesis
    using c by simp
qed

section \<open>The tree invariant is kept\<close>

lemma tree_inv_Cons:
  "tree_inv (p # tree) \<longleftrightarrow> wf_pending p \<and> rbtree_search tree p = None \<and> tree_inv tree"
  by (auto simp: tree_inv_def)

lemma wf_calloc_pending:
  assumes "length addr = SOCKADDR_STORAGE_SIZE" and "addrlen \<le> SOCKADDR_STORAGE_SIZE"
  shows "wf_pending (calloc_pending v addr addrlen cb cb_arg)"
  using assms by (simp add: wf_pending_def calloc_pending_def memcpy_def)

lemma new_pending_loop_tree:
  assumes "new_pending_loop tree pend packet rnd id_tries = (Some (pend', tree'), packet', rnd', evs)"
  shows "tree' = pend' # tree \<and> rbtree_search tree pend' = None
       \<and> pend' = pend\<lparr>pend_id := pend_id pend'\<rparr>"
  using assms
proof (induction tree pend packet rnd id_tries rule: new_pending_loop.induct)
  case (1 tree pend packet rnd id_tries)
  show ?case
  proof (cases "rbtree_insert tree pend")
    case (Some t)
    then have "rbtree_search tree pend = None" and "t = pend # tree"
      by (auto simp: rbtree_insert_def split: option.splits)
    then show ?thesis
      using Some "1.prems" by (auto simp add: new_pending_loop.simps [of tree pend])
  next
    case None
    let ?v = "gen_id (fst (ub_random rnd))"
    have ne: "id_tries + 1 \<noteq> MAX_ID_RETRY_int"
      using None "1.prems" by (auto simp: new_pending_loop.simps [of tree pend])
    have rec: "new_pending_loop tree (pend\<lparr>pend_id := ?v\<rparr>) (LDNS_ID_SET packet ?v)
        (snd (ub_random rnd)) (id_tries + 1) = (Some (pend', tree'), packet', rnd', evs)"
      using None ne "1.prems" by (simp add: new_pending_loop.simps [of tree pend])
    show ?thesis
      using "1.IH" [OF None ne rec] by simp
  qed
qed

lemma pending_udp_query_tree:
  assumes "pending_udp_query e outnet packet addr addrlen timeout cb cb_arg rnd
             = Inr (outnet', packet', rnd', evs)"
  shows "pending_tree outnet' = pending_tree outnet
       \<or> (\<exists>v c t. pending_tree outnet'
              = calloc_pending v addr addrlen cb cb_arg\<lparr>pend_c := c, pend_timer := t\<rparr>
                # pending_tree outnet
            \<and> rbtree_search (pending_tree outnet) (calloc_pending v addr addrlen cb cb_arg) = None)"
proof -
  obtain r outnet1 packet1 rnd1 evs1 where np:
    "new_pending e outnet packet addr addrlen cb cb_arg rnd = (r, outnet1, packet1, rnd1, evs1)"
    by (metis prod_cases5)
  show ?thesis
  proof (cases r)
    case None
    have "outnet1 = outnet"
    proof (cases "calloc_ok e \<and> comm_timer_create_ok e")
      case True
      obtain lr pk rn ev where loop: "new_pending_loop (pending_tree outnet)
          (calloc_pending (gen_id (fst (ub_random rnd))) addr addrlen cb cb_arg)
          (LDNS_ID_SET packet (gen_id (fst (ub_random rnd)))) (snd (ub_random rnd)) 0
           = (lr, pk, rn, ev)"
        by (metis prod_cases4)
      show ?thesis
      proof (cases lr)
        case None
        then show ?thesis
          using np True loop by (simp add: new_pending_def)
      next
        case (Some x)
        obtain a b where "x = (a, b)"
          by (cases x)
        then show ?thesis
          using np True loop Some \<open>r = None\<close> by (simp add: new_pending_def)
      qed
    next
      case False
      then show ?thesis
        using np by (auto simp: new_pending_def split: if_splits)
    qed
    then show ?thesis
      using assms np None by (simp add: pending_udp_query_def)
  next
    case (Some pend)
    let ?tree = "pending_tree outnet"
    let ?v = "gen_id (fst (ub_random rnd))"
    have ok: "calloc_ok e" "comm_timer_create_ok e"
      using np Some by (auto simp: new_pending_def split: if_splits)
    obtain lr pk rn ev where loop0: "new_pending_loop ?tree
        (calloc_pending ?v addr addrlen cb cb_arg) (LDNS_ID_SET packet ?v) (snd (ub_random rnd)) 0
         = (lr, pk, rn, ev)"
      by (metis prod_cases4)
    obtain tree' where lr: "lr = Some (pend, tree')"
      and o1: "outnet1 = outnet\<lparr>pending_tree := tree'\<rparr>"
      using np Some ok loop0 by (auto simp: new_pending_def split: option.splits)
    note loop = loop0 [unfolded lr]
    note L = new_pending_loop_tree [OF loop]
    have pend: "pend = calloc_pending (pend_id pend) addr addrlen cb cb_arg"
      using L by (auto simp: calloc_pending_def)
    have fresh: "rbtree_search ?tree pend = None" and t1: "pending_tree outnet1 = pend # ?tree"
      using L o1 by simp_all
    obtain pend2 rnd2 evs2 where sp: "select_port e outnet1 pend rnd1 = Inr (pend2, rnd2, evs2)"
      using assms np Some by (auto simp: pending_udp_query_def split: sum.splits)
    have p2: "pend2 = pend\<lparr>pend_c := pend_c pend2\<rparr>"
      using sp by (rule select_port_shape)
    have u1: "tree_update (pend # ?tree) pend2 = pend2 # ?tree"
      using fresh by (rule tree_update_head) (subst p2, simp)+
    have c2: "pending_cmp pend2 q = pending_cmp pend q" for q
      by (rule pending_cmp_cong) (subst p2, simp)+
    have fresh2: "rbtree_search ?tree pend2 = None"
      using fresh c2 by (simp add: rbtree_search_None_iff)
    let ?p3 = "pend2\<lparr>pend_timer := Some (timeout, 0)\<rparr>"
    have u2: "tree_update (pend2 # ?tree) ?p3 = ?p3 # ?tree"
      using fresh2 by (rule tree_update_head) simp_all
    show ?thesis
    proof (cases "comm_point_send_udp_msg e (pend_c pend2) packet1 addr addrlen")
      case False
      then have "outnet' = pending_delete (outnet1\<lparr>pending_tree := pend2 # ?tree\<rparr>) pend2"
        using assms np Some sp by (auto simp: pending_udp_query_def Let_def t1 u1)
      then show ?thesis
        by (simp add: pending_delete_def pending_cmp_refl)
    next
      case True
      then have "outnet' = outnet1\<lparr>pending_tree := ?p3 # ?tree\<rparr>"
        using assms np Some sp by (auto simp: pending_udp_query_def Let_def t1 u1 u2)
      then have t': "pending_tree outnet' = ?p3 # ?tree"
        by simp
      have e3: "?p3 = calloc_pending (pend_id pend) addr addrlen cb cb_arg
          \<lparr>pend_c := pend_c pend2, pend_timer := Some (timeout, 0)\<rparr>"
        by (subst p2, subst pend) (simp add: calloc_pending_def)
      have f: "rbtree_search ?tree (calloc_pending (pend_id pend) addr addrlen cb cb_arg) = None"
        by (subst pend [symmetric]) (rule fresh)
      have "\<exists>v c t. pending_tree outnet'
              = calloc_pending v addr addrlen cb cb_arg\<lparr>pend_c := c, pend_timer := t\<rparr>
                # pending_tree outnet
            \<and> rbtree_search (pending_tree outnet) (calloc_pending v addr addrlen cb cb_arg) = None"
        by (intro exI [of _ "pend_id pend"] exI [of _ "pend_c pend2"]
            exI [of _ "Some (timeout, 0)"] conjI f) (simp only: t' e3)
      then show ?thesis
        by (rule disjI2)
    qed
  qed
qed

lemma tree_inv_pending_udp_query:
  assumes "pending_udp_query e outnet packet addr addrlen timeout cb cb_arg rnd
             = Inr (outnet', packet', rnd', evs)"
    and "tree_inv (pending_tree outnet)"
    and "length addr = SOCKADDR_STORAGE_SIZE" and "addrlen \<le> SOCKADDR_STORAGE_SIZE"
  shows "tree_inv (pending_tree outnet')"
proof -
  from pending_udp_query_tree [OF assms(1)]
  show ?thesis
  proof
    assume "pending_tree outnet' = pending_tree outnet"
    then show ?thesis
      using assms(2) by simp
  next
    assume "\<exists>v c t. pending_tree outnet'
              = calloc_pending v addr addrlen cb cb_arg\<lparr>pend_c := c, pend_timer := t\<rparr>
                # pending_tree outnet
            \<and> rbtree_search (pending_tree outnet) (calloc_pending v addr addrlen cb cb_arg) = None"
    then obtain v c t where t: "pending_tree outnet'
        = calloc_pending v addr addrlen cb cb_arg\<lparr>pend_c := c, pend_timer := t\<rparr> # pending_tree outnet"
      and fresh: "rbtree_search (pending_tree outnet) (calloc_pending v addr addrlen cb cb_arg) = None"
      by blast
    let ?p = "calloc_pending v addr addrlen cb cb_arg"
    let ?p' = "?p\<lparr>pend_c := c, pend_timer := t\<rparr>"
    have wf: "wf_pending ?p'"
      using wf_calloc_pending [OF assms(3,4), of v cb cb_arg] by (simp add: wf_pending_def)
    have "pending_cmp ?p' q = pending_cmp ?p q" for q
      by (rule pending_cmp_cong) simp_all
    then have "rbtree_search (pending_tree outnet) ?p' = None"
      using fresh by (simp add: rbtree_search_None_iff)
    then show ?thesis
      using t wf assms(2) by (simp add: tree_inv_Cons)
  qed
qed

lemma tree_inv_pending_udp_timer_cb:
  "tree_inv (pending_tree outnet) \<Longrightarrow> tree_inv (pending_tree (fst (pending_udp_timer_cb outnet p)))"
  by (simp add: pending_udp_timer_cb_def pending_delete_def tree_inv_rbtree_delete)

lemma tree_inv_outside_network_create:
  "outside_network_create w bufsize num_ports ifs do_ip4 do_ip6 port_base = (Some outnet, evs)
     \<Longrightarrow> tree_inv (pending_tree outnet)"
  using outside_network_create_Some by (simp add: tree_inv_def)

lemma tree_inv_map:
  assumes "tree_inv tree"
    and "\<forall>q \<in> set tree. wf_pending (f q) \<and> key_tuple (f q) = key_tuple q"
  shows "tree_inv (map f tree)"
  using assms
proof (induction tree)
  case Nil
  then show ?case by (simp add: tree_inv_def)
next
  case (Cons a tree)
  have inv: "tree_inv tree" and wfa: "wf_pending a" and fresh: "rbtree_search tree a = None"
    and wft: "list_all wf_pending tree"
    using Cons.prems(1) by (simp_all add: tree_inv_Cons tree_inv_def)
  have fa: "wf_pending (f a)" "key_tuple (f a) = key_tuple a"
    using Cons.prems(2) by simp_all
  have "pending_cmp (f a) (f r) \<noteq> 0" if "r \<in> set tree" for r
  proof -
    have wr: "wf_pending r" "wf_pending (f r)" "key_tuple (f r) = key_tuple r"
      using that wft Cons.prems(2) by (simp_all add: list_all_iff)
    have "pending_cmp a r \<noteq> 0"
      using fresh that by (simp add: rbtree_search_None_iff)
    then have "key_tuple a \<noteq> key_tuple r"
      using wfa wr(1) by (simp add: pending_cmp_eq_iff)
    then show ?thesis
      using fa wr by (simp add: pending_cmp_eq_iff)
  qed
  then have "rbtree_search (map f tree) (f a) = None"
    by (simp add: rbtree_search_None_iff)
  moreover have "tree_inv (map f tree)"
    using Cons.IH [OF inv] Cons.prems(2) by simp
  ultimately show ?case
    using fa by (simp add: tree_inv_Cons)
qed

lemma tree_inv_outnet_udp_cb:
  assumes "outnet_udp_cb key0 c buffer outnet error reply_info = Inr (outnet', evs)"
    and "tree_inv (pending_tree outnet)"
  shows "tree_inv (pending_tree outnet')"
proof (cases "\<exists>ri p. error = NETEVENT_NOERROR \<and> reply_info = Some ri
    \<and> rbtree_search (pending_tree outnet) (reply_key key0 buffer ri) = Some p \<and> pend_c p = Some c")
  case False
  have "outnet' = outnet"
  proof (cases "error = NETEVENT_NOERROR")
    case e: True
    show ?thesis
    proof (cases reply_info)
      case None
      then show ?thesis
        using assms(1) e by (simp add: outnet_udp_cb_def)
    next
      case (Some ri)
      show ?thesis
      proof (cases "rbtree_search (pending_tree outnet) (reply_key key0 buffer ri)")
        case None
        then show ?thesis
          using assms(1) e Some by (simp add: outnet_udp_cb_def)
      next
        case sp: (Some p)
        then have "pend_c p \<noteq> Some c"
          using False e Some by simp
        then show ?thesis
          using assms(1) e Some sp by (simp add: outnet_udp_cb_def)
      qed
    qed
  next
    case False
    then show ?thesis
      using assms(1) by (simp add: outnet_udp_cb_def)
  qed
  then show ?thesis
    using assms(2) by simp
next
  case True
  then obtain ri p where e: "error = NETEVENT_NOERROR" and r: "reply_info = Some ri"
    and found: "rbtree_search (pending_tree outnet) (reply_key key0 buffer ri) = Some p"
    and pc: "pend_c p = Some c"
    by blast
  have out: "outnet' = pending_delete
        (outnet\<lparr>pending_tree := tree_update (pending_tree outnet) (p\<lparr>pend_timer := None\<rparr>)\<rparr>)
        (p\<lparr>pend_timer := None\<rparr>)"
    using assms(1) e r found pc by (simp add: outnet_udp_cb_def)
  let ?p' = "p\<lparr>pend_timer := None\<rparr>"
  have pin: "p \<in> set (pending_tree outnet)"
    using found by (simp add: rbtree_search_SomeD)
  have wft: "list_all wf_pending (pending_tree outnet)"
    using assms(2) by (simp add: tree_inv_def)
  have wfp: "wf_pending p"
    using pin wft by (simp add: list_all_iff)
  have wfp': "wf_pending ?p'" and kp': "key_tuple ?p' = key_tuple p"
    using wfp by (simp_all add: wf_pending_def key_tuple_def)
  have "\<forall>q \<in> set (pending_tree outnet).
      wf_pending (if pending_cmp ?p' q = 0 then ?p' else q)
      \<and> key_tuple (if pending_cmp ?p' q = 0 then ?p' else q) = key_tuple q"
  proof
    fix q
    assume q: "q \<in> set (pending_tree outnet)"
    then have wq: "wf_pending q"
      using wft by (simp add: list_all_iff)
    show "wf_pending (if pending_cmp ?p' q = 0 then ?p' else q)
      \<and> key_tuple (if pending_cmp ?p' q = 0 then ?p' else q) = key_tuple q"
      using wq wfp' pending_cmp_eq_iff [OF wfp' wq] by simp
  qed
  then have "tree_inv (tree_update (pending_tree outnet) ?p')"
    unfolding tree_update_def using assms(2) by (rule tree_inv_map [rotated])
  then show ?thesis
    using out by (simp add: pending_delete_def tree_inv_rbtree_delete)
qed

end
